theory Spec2Isabelle
  imports Complex_Main "HOL-Library.Word"
begin

unbundle bit_operations_syntax

section \<open>Single-precision values\<close>

text \<open>
  A \<open>float\<close> of the C source is its IEEE 754 binary32 bit pattern: bit 31 is the sign,
  bits 30..23 the biased exponent, bits 22..0 the fraction. Exponent 255 with a nonzero
  fraction is a NaN, exponent 255 with fraction 0 an infinity.
\<close>

type_synonym f32 = "32 word"

definition f32_sign :: "f32 \<Rightarrow> bool" where
  "f32_sign w = bit w 31"

definition f32_exponent :: "f32 \<Rightarrow> nat" where
  "f32_exponent w = unat (take_bit 8 (drop_bit 23 w))"

definition f32_fraction :: "f32 \<Rightarrow> nat" where
  "f32_fraction w = unat (take_bit 23 w)"

definition f32_is_nan :: "f32 \<Rightarrow> bool" where
  "f32_is_nan w = (f32_exponent w = 255 \<and> f32_fraction w \<noteq> 0)"

definition f32_is_finite :: "f32 \<Rightarrow> bool" where
  "f32_is_finite w = (f32_exponent w < 255)"

text \<open>
  The magnitude in units of \<open>2 ^ -149\<close> (the smallest subnormal), which makes it an
  integer: a subnormal is \<open>fraction * 2 ^ -149\<close>, a normal number is
  \<open>(2 ^ 23 + fraction) * 2 ^ (exponent - 150)\<close>. An infinity is placed at
  \<open>2 ^ 128\<close>, above every finite value, so that the order of the scaled integers is
  the IEEE order of all values that are not NaN.
\<close>

definition f32_magnitude :: "f32 \<Rightarrow> int" where
  "f32_magnitude w =
     (if f32_exponent w = 0 then int (f32_fraction w)
      else (2 ^ 23 + int (f32_fraction w)) * 2 ^ (f32_exponent w - 1))"

definition f32_scaled :: "f32 \<Rightarrow> int" where
  "f32_scaled w = (if f32_sign w then - f32_magnitude w else f32_magnitude w)"

definition f32_valof :: "f32 \<Rightarrow> real" where
  "f32_valof w = real_of_int (f32_scaled w) / 2 ^ 149"

text \<open>
  The ordered comparison \<open>a > b\<close> of IEEE 754: false when either side is a NaN, and
  false between the two zeros, which have the same value.
\<close>

definition f32_gt :: "f32 \<Rightarrow> f32 \<Rightarrow> bool" where
  "f32_gt a b = (\<not> f32_is_nan a \<and> \<not> f32_is_nan b \<and> f32_scaled b < f32_scaled a)"

section \<open>The machine: flat memory and the accesses made to it\<close>

text \<open>
  Memory is an array of \<open>float\<close> cells; a \<open>float*\<close> is the index of a cell and
  \<open>NULL\<close> is index 0. In this plain machine every cell can be read and written,
  as on the hardware once the page is mapped: a load past the end of a buffer returns
  whatever is stored there. Which cells a call touches is recorded in the trace, one
  event for each load and store intrinsic, so that bounds on the accesses are statements
  about the trace. Memory protection, under which an access can fault, is added to the
  kernel in a section of its own below.
\<close>

type_synonym addr = nat

datatype event = LoadU addr | StoreU addr | StoreL addr | StoreSS addr

record machine =
  mem :: "addr \<Rightarrow> f32"
  trace :: "event list"

text \<open>The cells an event reads and the cells it writes, lowest first.\<close>

fun cells_read :: "event \<Rightarrow> addr list" where
  "cells_read (LoadU p) = [p, p + 1, p + 2, p + 3]"
| "cells_read (StoreU p) = []"
| "cells_read (StoreL p) = []"
| "cells_read (StoreSS p) = []"

fun cells_written :: "event \<Rightarrow> addr list" where
  "cells_written (LoadU p) = []"
| "cells_written (StoreU p) = [p, p + 1, p + 2, p + 3]"
| "cells_written (StoreL p) = [p, p + 1]"
| "cells_written (StoreSS p) = [p]"

definition reads_of :: "event list \<Rightarrow> addr list" where
  "reads_of es = concat (map cells_read es)"

definition writes_of :: "event list \<Rightarrow> addr list" where
  "writes_of es = concat (map cells_written es)"

section \<open>The SSE intrinsics the kernel uses\<close>

text \<open>A \<open>__m128\<close> holds four lanes; the first is the lowest (bits 31..0).\<close>

datatype m128 = M128 f32 f32 f32 f32

definition mm_setzero_ps :: m128 where
  "mm_setzero_ps = M128 0 0 0 0"

text \<open>
  MAXPS, one lane: the first operand when it is greater than the second, and the second
  operand otherwise, so also when either is a NaN and when both are zeros.
\<close>

definition max_lane :: "f32 \<Rightarrow> f32 \<Rightarrow> f32" where
  "max_lane a b = (if f32_gt a b then a else b)"

fun mm_max_ps :: "m128 \<Rightarrow> m128 \<Rightarrow> m128" where
  "mm_max_ps (M128 a0 a1 a2 a3) (M128 b0 b1 b2 b3) =
     M128 (max_lane a0 b0) (max_lane a1 b1) (max_lane a2 b2) (max_lane a3 b3)"

text \<open>MOVHLPS: the upper two lanes of \<open>b\<close> move to the lower two lanes of the result.\<close>

fun mm_movehl_ps :: "m128 \<Rightarrow> m128 \<Rightarrow> m128" where
  "mm_movehl_ps (M128 a0 a1 a2 a3) (M128 b0 b1 b2 b3) = M128 b2 b3 a2 a3"

definition mm_loadu_ps :: "addr \<Rightarrow> machine \<Rightarrow> m128 \<times> machine" where
  "mm_loadu_ps p s =
     (M128 (mem s p) (mem s (p + 1)) (mem s (p + 2)) (mem s (p + 3)),
      s\<lparr>trace := trace s @ [LoadU p]\<rparr>)"

fun mm_storeu_ps :: "addr \<Rightarrow> m128 \<Rightarrow> machine \<Rightarrow> machine" where
  "mm_storeu_ps p (M128 a0 a1 a2 a3) s =
     s\<lparr>mem := (mem s)(p := a0, p + 1 := a1, p + 2 := a2, p + 3 := a3),
       trace := trace s @ [StoreU p]\<rparr>"

fun mm_storel_pi :: "addr \<Rightarrow> m128 \<Rightarrow> machine \<Rightarrow> machine" where
  "mm_storel_pi p (M128 a0 a1 a2 a3) s =
     s\<lparr>mem := (mem s)(p := a0, p + 1 := a1), trace := trace s @ [StoreL p]\<rparr>"

fun mm_store_ss :: "addr \<Rightarrow> m128 \<Rightarrow> machine \<Rightarrow> machine" where
  "mm_store_ss p (M128 a0 a1 a2 a3) s =
     s\<lparr>mem := (mem s)(p := a0), trace := trace s @ [StoreSS p]\<rparr>"

section \<open>The kernel\<close>

text \<open>
  \<open>n\<close> is the \<open>size_t\<close> byte count. The code only subtracts from it, and only
  under the guard \<open>n >= 4 * sizeof(float)\<close>, so it never wraps and a natural number
  is exact.
\<close>

abbreviation (input) sizeof_float :: nat where
  "sizeof_float \<equiv> 4"

text \<open>
  The main loop (lines 31 to 39): while at least four floats remain, load four, take the
  maximum with zero, store four, advance both pointers. It returns the residual byte
  count, the two advanced pointers and the machine.
\<close>

function main_loop :: "nat \<Rightarrow> addr \<Rightarrow> addr \<Rightarrow> m128 \<Rightarrow> machine \<Rightarrow> nat \<times> addr \<times> addr \<times> machine" where
  "main_loop n x y vzero s =
     (if n \<ge> 4 * sizeof_float then
        (let (vacc0123, s1) = mm_loadu_ps x s;
             x' = x + 4;
             vacc0123' = mm_max_ps vacc0123 vzero;
             s2 = mm_storeu_ps y vacc0123' s1;
             y' = y + 4
         in main_loop (n - 4 * sizeof_float) x' y' vzero s2)
      else (n, x, y, s))"
  by pat_completeness auto
termination
  by (relation "measure (\<lambda>(n, x, y, vzero, s). n)") auto

declare main_loop.simps [simp del]

text \<open>
  The tail (lines 41 to 51), entered with the residual byte count: one load of four
  lanes at the current input pointer, the maximum with zero, then a two-lane store when
  bit \<open>2 * sizeof(float)\<close> of \<open>n\<close> is set and a one-lane store when bit
  \<open>sizeof(float)\<close> is set.
\<close>

definition tail :: "nat \<Rightarrow> addr \<Rightarrow> addr \<Rightarrow> m128 \<Rightarrow> machine \<Rightarrow> machine" where
  "tail n x y vzero s =
     (let (vacc, s1) = mm_loadu_ps x s;
          vacc1 = mm_max_ps vacc vzero;
          (vacc2, y2, s2) =
            (if n AND (2 * sizeof_float) \<noteq> 0
             then (mm_movehl_ps vacc1 vacc1, y + 2, mm_storel_pi y vacc1 s1)
             else (vacc1, y, s1))
      in if n AND (1 * sizeof_float) \<noteq> 0 then mm_store_ss y2 vacc2 s2 else s2)"

text \<open>
  The whole function. The four assertions are the first branch: a call that violates
  one is aborted and has no result. \<open>params\<close> is the pointer to the parameter
  block; the body never uses it.
\<close>

definition xnn_f32_relu_ukernel__sse_x4 :: "nat \<Rightarrow> addr \<Rightarrow> addr \<Rightarrow> addr \<Rightarrow> machine \<Rightarrow> machine option" where
  "xnn_f32_relu_ukernel__sse_x4 n x y params s =
     (if n = 0 \<or> n mod sizeof_float \<noteq> 0 \<or> x = 0 \<or> y = 0 then None
      else
        (let vzero = mm_setzero_ps;
             (n', x', y', s') = main_loop n x y vzero s
         in Some (if n' \<noteq> 0 then tail n' x' y' vzero s' else s')))"

section \<open>The kernel under memory protection\<close>

text \<open>
  On the hardware a load or a store of a cell that the process may not access ends the
  call with a memory fault. The protection of the memory is given by the set of cells
  that may be read and the set of cells that may be written; an intrinsic is permitted
  when every cell it reads is readable and every cell it writes is writable. The
  protected intrinsics fault where the access is not permitted and otherwise do what the
  plain ones do.
\<close>

datatype error = AssertionFailed | SegFault

record protection =
  readable :: "addr set"
  writable :: "addr set"

definition permitted :: "protection \<Rightarrow> event \<Rightarrow> bool" where
  "permitted pr e =
     (set (cells_read e) \<subseteq> readable pr \<and> set (cells_written e) \<subseteq> writable pr)"

definition mm_loadu_ps_prot :: "protection \<Rightarrow> addr \<Rightarrow> machine \<Rightarrow> error + m128 \<times> machine" where
  "mm_loadu_ps_prot pr p s =
     (if permitted pr (LoadU p) then Inr (mm_loadu_ps p s) else Inl SegFault)"

definition mm_storeu_ps_prot :: "protection \<Rightarrow> addr \<Rightarrow> m128 \<Rightarrow> machine \<Rightarrow> error + machine" where
  "mm_storeu_ps_prot pr p v s =
     (if permitted pr (StoreU p) then Inr (mm_storeu_ps p v s) else Inl SegFault)"

definition mm_storel_pi_prot :: "protection \<Rightarrow> addr \<Rightarrow> m128 \<Rightarrow> machine \<Rightarrow> error + machine" where
  "mm_storel_pi_prot pr p v s =
     (if permitted pr (StoreL p) then Inr (mm_storel_pi p v s) else Inl SegFault)"

definition mm_store_ss_prot :: "protection \<Rightarrow> addr \<Rightarrow> m128 \<Rightarrow> machine \<Rightarrow> error + machine" where
  "mm_store_ss_prot pr p v s =
     (if permitted pr (StoreSS p) then Inr (mm_store_ss p v s) else Inl SegFault)"

text \<open>
  The same three parts of the function, lines 31 to 39, 41 to 51 and 24 to 52, over the
  protected intrinsics: a fault of an access ends the call at once.
\<close>

function main_loop_prot ::
  "protection \<Rightarrow> nat \<Rightarrow> addr \<Rightarrow> addr \<Rightarrow> m128 \<Rightarrow> machine \<Rightarrow> error + nat \<times> addr \<times> addr \<times> machine" where
  "main_loop_prot pr n x y vzero s =
     (if n \<ge> 4 * sizeof_float then
        (case mm_loadu_ps_prot pr x s of
           Inl e \<Rightarrow> Inl e
         | Inr (vacc0123, s1) \<Rightarrow>
             (let x' = x + 4;
                  vacc0123' = mm_max_ps vacc0123 vzero
              in case mm_storeu_ps_prot pr y vacc0123' s1 of
                   Inl e \<Rightarrow> Inl e
                 | Inr s2 \<Rightarrow> main_loop_prot pr (n - 4 * sizeof_float) x' (y + 4) vzero s2))
      else Inr (n, x, y, s))"
  by pat_completeness auto
termination
  by (relation "measure (\<lambda>(pr, n, x, y, vzero, s). n)") auto

declare main_loop_prot.simps [simp del]

definition tail_prot :: "protection \<Rightarrow> nat \<Rightarrow> addr \<Rightarrow> addr \<Rightarrow> m128 \<Rightarrow> machine \<Rightarrow> error + machine" where
  "tail_prot pr n x y vzero s =
     (case mm_loadu_ps_prot pr x s of
        Inl e \<Rightarrow> Inl e
      | Inr (vacc, s1) \<Rightarrow>
          (let vacc1 = mm_max_ps vacc vzero
           in case (if n AND (2 * sizeof_float) \<noteq> 0
                    then (case mm_storel_pi_prot pr y vacc1 s1 of
                            Inl e \<Rightarrow> Inl e
                          | Inr s2 \<Rightarrow> Inr (mm_movehl_ps vacc1 vacc1, y + 2, s2))
                    else Inr (vacc1, y, s1)) of
                Inl e \<Rightarrow> Inl e
              | Inr (vacc2, y2, s2) \<Rightarrow>
                  (if n AND (1 * sizeof_float) \<noteq> 0 then mm_store_ss_prot pr y2 vacc2 s2
                   else Inr s2)))"

definition xnn_f32_relu_ukernel__sse_x4_prot ::
  "protection \<Rightarrow> nat \<Rightarrow> addr \<Rightarrow> addr \<Rightarrow> addr \<Rightarrow> machine \<Rightarrow> error + machine" where
  "xnn_f32_relu_ukernel__sse_x4_prot pr n x y params s =
     (if n = 0 \<or> n mod sizeof_float \<noteq> 0 \<or> x = 0 \<or> y = 0 then Inl AssertionFailed
      else
        (let vzero = mm_setzero_ps
         in case main_loop_prot pr n x y vzero s of
              Inl e \<Rightarrow> Inl e
            | Inr (n', x', y', s') \<Rightarrow>
                (if n' \<noteq> 0 then tail_prot pr n' x' y' vzero s' else Inr s')))"

section \<open>Derived notions used in the statements\<close>

text \<open>
  One iteration of the main loop on the machine: the load, the maximum with the zero
  vector and the store of lines 32 to 37.
\<close>

definition chunk :: "addr \<Rightarrow> addr \<Rightarrow> machine \<Rightarrow> machine" where
  "chunk x y s =
     mm_storeu_ps y (mm_max_ps (fst (mm_loadu_ps x s)) mm_setzero_ps) (snd (mm_loadu_ps x s))"

text \<open>The machine the main loop leaves behind.\<close>

definition loop_machine :: "nat \<Rightarrow> addr \<Rightarrow> addr \<Rightarrow> machine \<Rightarrow> machine" where
  "loop_machine n x y s = snd (snd (snd (main_loop n x y mm_setzero_ps s)))"

text \<open>
  The contents of the \<open>N\<close> cells from \<open>p\<close> on, a memory that holds the list
  \<open>vs\<close> from cell \<open>p\<close> on and positive zero elsewhere, and a machine that has not
  made any access yet.
\<close>

definition buffer :: "machine \<Rightarrow> addr \<Rightarrow> nat \<Rightarrow> f32 list" where
  "buffer s p N = map (mem s) [p..<p + N]"

definition image_at :: "addr \<Rightarrow> f32 list \<Rightarrow> addr \<Rightarrow> f32" where
  "image_at p vs a = (if p \<le> a \<and> a < p + length vs then vs ! (a - p) else 0)"

definition machine_of :: "(addr \<Rightarrow> f32) \<Rightarrow> machine" where
  "machine_of m = \<lparr>mem = m, trace = []\<rparr>"

text \<open>
  The five values \<open>-3.5, 0.0, 2.25, -0.0, 7.0\<close> as bit patterns.
\<close>

definition mixed :: "f32 list" where
  "mixed = [0xC0600000, 0, 0x40100000, 0x80000000, 0x40E00000]"

text \<open>A quiet NaN, negative zero and \<open>1.0\<close>.\<close>

definition specials :: "f32 list" where
  "specials = [0x7FC00000, 0x80000000, 0x3F800000]"

section \<open>Lemmas: the maximum with positive zero\<close>

text \<open>
  On one lane the kernel computes \<open>max_lane v 0\<close>: \<open>v\<close> itself
  when it is a positive number or positive infinity, and positive zero for every other bit
  pattern.
\<close>

lemma nan0: "\<not> f32_is_nan 0"
  by (simp add: f32_is_nan_def f32_exponent_def)

lemma scaled0: "f32_scaled 0 = 0"
  by (simp add: f32_scaled_def f32_magnitude_def f32_exponent_def f32_fraction_def f32_sign_def)

lemma finite0: "f32_is_finite 0"
  by (simp add: f32_is_finite_def f32_exponent_def)

lemma valof0: "f32_valof 0 = 0"
  by (simp add: f32_valof_def scaled0)

lemma finite_not_nan: "f32_is_finite v \<Longrightarrow> \<not> f32_is_nan v"
  by (simp add: f32_is_finite_def f32_is_nan_def)

lemma relu_bits: "max_lane v 0 = (if \<not> f32_is_nan v \<and> 0 < f32_scaled v then v else 0)"
  by (simp add: max_lane_def f32_gt_def nan0 scaled0)

lemma relu_idem: "max_lane (max_lane v 0) 0 = max_lane v 0"
  by (simp add: max_lane_def)

lemma relu_valof:
  assumes "f32_is_finite v"
  shows "f32_valof (max_lane v 0) = max (f32_valof v) 0"
proof (cases "0 < f32_scaled v")
  case True
  then have "0 < f32_valof v" by (simp add: f32_valof_def)
  with True assms show ?thesis by (simp add: relu_bits finite_not_nan)
next
  case False
  then have "f32_valof v \<le> 0" by (simp add: f32_valof_def divide_le_0_iff)
  with False show ?thesis by (simp add: relu_bits valof0)
qed

lemma relu_finite: "f32_is_finite v \<Longrightarrow> f32_is_finite (max_lane v 0)"
  by (simp add: max_lane_def finite0)

lemma max_lane_mixed:
  "max_lane 0xC0600000 0 = 0" "max_lane 0 0 = 0" "max_lane 0x40100000 0 = 0x40100000"
  "max_lane 0x80000000 0 = 0" "max_lane 0x40E00000 0 = 0x40E00000"
  by (simp_all add: max_lane_def f32_gt_def f32_is_nan_def f32_scaled_def f32_magnitude_def
        f32_exponent_def f32_fraction_def f32_sign_def)

lemma valof_mixed:
  "map f32_valof mixed = [-3.5, 0, 2.25, 0, 7]"
  by (simp add: mixed_def f32_valof_def f32_scaled_def f32_magnitude_def
        f32_exponent_def f32_fraction_def f32_sign_def)

lemma sign_mixed: "f32_sign (mixed ! 3)" "\<not> f32_sign (mixed ! 1)"
  by (simp_all add: mixed_def f32_sign_def)

section \<open>Lemmas: arithmetic of the byte count\<close>

text \<open>
  The byte count of \<open>N = 4 * K + R\<close> floats, its split by the loop guard, and
  the two bits the tail tests.
\<close>

lemma bytes_div_mod:
  assumes "R < (4::nat)"
  shows "(4 * K + R) * 4 div 16 = K" and "(4 * K + R) * 4 mod 16 = 4 * R"
proof -
  have e: "(4 * K + R) * 4 = 4 * R + K * 16" by simp
  from assms show "(4 * K + R) * 4 div 16 = K" unfolding e by simp
  from assms show "(4 * K + R) * 4 mod 16 = 4 * R" unfolding e by simp
qed

lemma count_split: "4 * (N div 4) + N mod 4 = (N::nat)" "N mod 4 < 4" "4 * (N div 4) = N - N mod 4"
  by (simp_all add: minus_mod_eq_mult_div [symmetric] mult.commute)

lemma bytes_div_mod_N: "(N::nat) * 4 div 16 = N div 4" "N * 4 mod 16 = 4 * (N mod 4)"
  using bytes_div_mod [of "N mod 4" "N div 4", unfolded count_split(1), OF count_split(2)]
  by blast+

lemma and_8_iff: "((n::nat) AND 8 \<noteq> 0) = odd (n div 8)"
  using and_exp_eq_0_iff_not_bit [of n 3] by (simp add: bit_iff_odd)

lemma and_4_iff: "((n::nat) AND 4 \<noteq> 0) = odd (n div 4)"
  using and_exp_eq_0_iff_not_bit [of n 2] by (simp add: bit_iff_odd)

lemma bit_tests:
  assumes "R < (4::nat)"
  shows "((4 * K + R) * 4 AND 8 \<noteq> 0) = (2 \<le> R)" and "((4 * K + R) * 4 AND 4 \<noteq> 0) = odd R"
proof -
  have d3: "(4 * K + R) * 4 div 8 = 2 * K + R div 2" by simp
  have d2: "(4 * K + R) * 4 div 4 = 4 * K + R" by simp
  from assms have "R = 0 \<or> R = 1 \<or> R = 2 \<or> R = 3" by arith
  then have o: "odd (R div 2) = (2 \<le> R)" by auto
  show "((4 * K + R) * 4 AND 8 \<noteq> 0) = (2 \<le> R)"
    unfolding and_8_iff d3 using o by simp
  show "((4 * K + R) * 4 AND 4 \<noteq> 0) = odd R"
    unfolding and_4_iff d2 by simp
qed

lemma bit_tests_N:
  "((N::nat) * 4 AND 8 \<noteq> 0) = (2 \<le> N mod 4)" "(N * 4 AND 4 \<noteq> 0) = odd (N mod 4)"
  using bit_tests [of "N mod 4" "N div 4", unfolded count_split(1), OF count_split(2)]
  by blast+

lemma upt_four: "[p..<p + 4] = [p, p + 1, p + 2, p + 3]"
  by (simp add: upt_conv_Cons)

lemma upt_next_four: "[p..<p + 4 * Suc K] = [p..<p + 4 * K] @ [p + 4 * K, p + 4 * K + 1, p + 4 * K + 2, p + 4 * K + 3]"
proof -
  have "p + 4 * Suc K = (p + 4 * K) + 4" by simp
  then have "[p..<p + 4 * Suc K] = [p..<p + 4 * K] @ [p + 4 * K..<p + 4 * K + 4]"
    by (simp only: upt_add_eq_append [OF le_add1])
  then show ?thesis by (simp only: upt_four)
qed

lemma all_below_list: "(\<forall>i<N. P i) = list_all P [0..<N]"
  by (auto simp: list_all_iff)

section \<open>Lemmas: the main loop\<close>

text \<open>
  The loop runs \<open>n div 16\<close> times; it leaves \<open>n mod 16\<close> bytes,
  has advanced both pointers by four cells per iteration, and has written the cells of the
  output it has passed.
\<close>

lemma main_loop_ge:
  "16 \<le> n \<Longrightarrow> main_loop n x y mm_setzero_ps s = main_loop (n - 16) (x + 4) (y + 4) mm_setzero_ps (chunk x y s)"
  by (subst main_loop.simps) (simp add: chunk_def Let_def split: prod.splits)

lemma main_loop_lt:
  "n < 16 \<Longrightarrow> main_loop n x y vz s = (n, x, y, s)"
  by (subst main_loop.simps) simp

lemma trace_chunk: "trace (chunk x y s) = trace s @ [LoadU x, StoreU y]"
  by (simp add: chunk_def mm_loadu_ps_def mm_setzero_ps_def)

lemma mem_chunk:
  "mem (chunk x y s) a =
     (if y \<le> a \<and> a < y + 4 then max_lane (mem s (x + (a - y))) 0 else mem s a)"
proof -
  have "a = y \<or> a = y + 1 \<or> a = y + 2 \<or> a = y + 3 \<or> a < y \<or> y + 4 \<le> a" by arith
  then show ?thesis
    by (elim disjE) (simp_all add: chunk_def mm_loadu_ps_def mm_setzero_ps_def)
qed

lemma chunk_mem_cong: "mem s1 = mem s2 \<Longrightarrow> mem (chunk x y s1) = mem (chunk x y s2)"
  by (simp add: chunk_def mm_loadu_ps_def mm_setzero_ps_def)

lemma main_loop_result:
  "\<exists>s'. main_loop n x y mm_setzero_ps s = (n mod 16, x + 4 * (n div 16), y + 4 * (n div 16), s')"
proof (induction n arbitrary: x y s rule: less_induct)
  case (less n)
  show ?case
  proof (cases "16 \<le> n")
    case True
    then have d: "n div 16 = Suc ((n - 16) div 16)" and m: "n mod 16 = (n - 16) mod 16"
      by (simp_all add: le_div_geq le_mod_geq)
    from True have "n - 16 < n" by simp
    from less.IH [OF this, of "x + 4" "y + 4" "chunk x y s"] show ?thesis
      by (simp add: main_loop_ge [OF True] d m add.assoc)
  next
    case False
    then show ?thesis by (simp add: main_loop_lt)
  qed
qed

lemma main_loop_eq:
  "main_loop n x y mm_setzero_ps s = (n mod 16, x + 4 * (n div 16), y + 4 * (n div 16), loop_machine n x y s)"
  using main_loop_result [of n x y s] by (auto simp: loop_machine_def)

lemma loop_machine_ge: "16 \<le> n \<Longrightarrow> loop_machine n x y s = loop_machine (n - 16) (x + 4) (y + 4) (chunk x y s)"
  by (simp add: loop_machine_def main_loop_ge)

lemma loop_machine_lt: "n < 16 \<Longrightarrow> loop_machine n x y s = s"
  by (simp add: loop_machine_def main_loop_lt)

lemma chunks_shift:
  "[LoadU x, StoreU y] @ concat (map (\<lambda>k. [LoadU (x + 4 + 4 * k), StoreU (y + 4 + 4 * k)]) [0..<m])
     = concat (map (\<lambda>k. [LoadU (x + 4 * k), StoreU (y + 4 * k)]) [0..<Suc m])"
proof -
  have "[0..<Suc m] = 0 # map Suc [0..<m]"
    by (simp add: upt_conv_Cons map_Suc_upt del: upt_Suc)
  then show ?thesis by (simp add: comp_def add.assoc del: upt_Suc)
qed

lemma trace_loop_machine:
  "trace (loop_machine n x y s) =
     trace s @ concat (map (\<lambda>k. [LoadU (x + 4 * k), StoreU (y + 4 * k)]) [0..<n div 16])"
proof (induction n arbitrary: x y s rule: less_induct)
  case (less n)
  show ?case
  proof (cases "16 \<le> n")
    case True
    then have d: "n div 16 = Suc ((n - 16) div 16)"
      by (simp add: le_div_geq)
    from True have "n - 16 < n" by simp
    from less.IH [OF this, of "x + 4" "y + 4" "chunk x y s"] show ?thesis
      unfolding loop_machine_ge [OF True] d chunks_shift [symmetric]
      by (simp add: trace_chunk)
  next
    case False
    then show ?thesis by (simp add: loop_machine_lt)
  qed
qed

lemma frame_loop_machine:
  "\<not> (y \<le> a \<and> a < y + 4 * (n div 16)) \<Longrightarrow> mem (loop_machine n x y s) a = mem s a"
proof (induction n arbitrary: x y s rule: less_induct)
  case (less n)
  show ?case
  proof (cases "16 \<le> n")
    case True
    then have d: "n div 16 = Suc ((n - 16) div 16)"
      by (simp add: le_div_geq)
    from True have lt: "n - 16 < n" by simp
    have "\<not> (y + 4 \<le> a \<and> a < y + 4 + 4 * ((n - 16) div 16))"
      using less.prems d by auto
    from less.IH [OF lt this, of "x + 4" "chunk x y s"]
    have "mem (loop_machine n x y s) a = mem (chunk x y s) a"
      by (simp add: loop_machine_ge [OF True])
    also have "\<dots> = mem s a"
      using less.prems d by (auto simp: mem_chunk)
    finally show ?thesis .
  next
    case False
    then show ?thesis by (simp add: loop_machine_lt)
  qed
qed

lemma mem_loop_machine:
  "y \<le> x \<or> x + 4 * (n div 16) \<le> y \<Longrightarrow> i < 4 * (n div 16) \<Longrightarrow>
   mem (loop_machine n x y s) (y + i) = max_lane (mem s (x + i)) 0"
proof (induction n arbitrary: x y s i rule: less_induct)
  case (less n)
  show ?case
  proof (cases "16 \<le> n")
    case True
    then have d: "n div 16 = Suc ((n - 16) div 16)"
      by (simp add: le_div_geq)
    from True have lt: "n - 16 < n" by simp
    show ?thesis
    proof (cases "i < 4")
      case True
      have "mem (loop_machine (n - 16) (x + 4) (y + 4) (chunk x y s)) (y + i) = mem (chunk x y s) (y + i)"
        using True by (intro frame_loop_machine) simp
      then show ?thesis
        using True \<open>16 \<le> n\<close> by (simp add: loop_machine_ge mem_chunk)
    next
      case False
      then obtain j where j: "i = 4 + j" using le_Suc_ex [of 4 i] by auto
      have al: "y + 4 \<le> x + 4 \<or> x + 4 + 4 * ((n - 16) div 16) \<le> y + 4"
        using less.prems(1) d by auto
      have jb: "j < 4 * ((n - 16) div 16)" using less.prems(2) d j by simp
      have "mem (loop_machine (n - 16) (x + 4) (y + 4) (chunk x y s)) (y + 4 + j)
              = max_lane (mem (chunk x y s) (x + 4 + j)) 0"
        by (rule less.IH [OF lt al jb])
      moreover have "mem (chunk x y s) (x + 4 + j) = mem s (x + 4 + j)"
        using less.prems(1) d jb by (auto simp: mem_chunk)
      ultimately show ?thesis
        using \<open>16 \<le> n\<close> j by (simp add: loop_machine_ge add.assoc)
    qed
  next
    case False
    with less.prems show ?thesis by simp
  qed
qed

lemma loop_machine_mem_cong:
  "mem s1 = mem s2 \<Longrightarrow> mem (loop_machine n x y s1) = mem (loop_machine n x y s2)"
proof (induction n arbitrary: x y s1 s2 rule: less_induct)
  case (less n)
  show ?case
  proof (cases "16 \<le> n")
    case True
    then have "n - 16 < n" by simp
    from less.IH [OF this chunk_mem_cong [OF less.prems]] True show ?thesis
      by (simp add: loop_machine_ge)
  next
    case False
    with less.prems show ?thesis by (simp add: loop_machine_lt)
  qed
qed

lemma length_chunks:
  "length (concat (map (\<lambda>k. [LoadU (x + 4 * k), StoreU (y + 4 * k)]) [0..<K])) = 2 * K"
  by (induction K) simp_all

lemma writes_chunks:
  "writes_of (concat (map (\<lambda>k. [LoadU (x + 4 * k), StoreU (y + 4 * k)]) [0..<K])) = [y..<y + 4 * K]"
proof (induction K)
  case 0
  show ?case by (simp add: writes_of_def)
next
  case (Suc K)
  then show ?case unfolding upt_next_four by (simp add: writes_of_def)
qed

section \<open>Lemmas: the tail\<close>

text \<open>
  For a residual count of one, two or three floats the tail loads four cells first and
  then stores exactly the first one, two or three lanes.
\<close>

lemma trace_tail:
  "r \<in> {1, 2, 3} \<Longrightarrow>
   trace (tail (4 * r) x y mm_setzero_ps s) =
     trace s @ [LoadU x] @ (if 2 \<le> r then [StoreL y] else [])
       @ (if odd r then [StoreSS (if 2 \<le> r then y + 2 else y)] else [])"
  by (auto simp: tail_def mm_loadu_ps_def mm_setzero_ps_def)

lemma mem_tail:
  assumes "r \<in> {1, 2, 3}"
  shows "mem (tail (4 * r) x y mm_setzero_ps s) a =
     (if y \<le> a \<and> a < y + r then max_lane (mem s (x + (a - y))) 0 else mem s a)"
proof -
  have c: "a = y \<or> a = y + 1 \<or> a = y + 2 \<or> a < y \<or> y + 3 \<le> a" by arith
  from assms consider "r = 1" | "r = 2" | "r = 3" by auto
  then show ?thesis
  proof cases
    case 1
    with c show ?thesis
      by (elim disjE) (simp_all add: tail_def mm_loadu_ps_def mm_setzero_ps_def)
  next
    case 2
    with c show ?thesis
      by (elim disjE) (simp_all add: tail_def mm_loadu_ps_def mm_setzero_ps_def)
  next
    case 3
    with c show ?thesis
      by (elim disjE) (simp_all add: tail_def mm_loadu_ps_def mm_setzero_ps_def)
  qed
qed

lemma tail_mem_cong:
  "mem s1 = mem s2 \<Longrightarrow> mem (tail n x y mm_setzero_ps s1) = mem (tail n x y mm_setzero_ps s2)"
  by (simp add: tail_def mm_loadu_ps_def mm_setzero_ps_def Let_def)

lemma length_trace_tail:
  "length (trace (tail n x y mm_setzero_ps s)) \<le> length (trace s) + 3"
  by (simp add: tail_def mm_loadu_ps_def mm_setzero_ps_def Let_def)

lemma writes_of_append: "writes_of (a @ b) = writes_of a @ writes_of b"
  by (simp add: writes_of_def)

lemma writes_tail_events:
  assumes "R \<in> {1, 2, 3::nat}"
  shows "writes_of ([LoadU x'] @ (if 2 \<le> R then [StoreL y'] else [])
          @ (if odd R then [StoreSS (if 2 \<le> R then y' + 2 else y')] else [])) = [y'..<y' + R]"
proof -
  from assms consider "R = 1" | "R = 2" | "R = 3" by auto
  then show ?thesis
    by cases (simp_all add: writes_of_def upt_conv_Cons)
qed

lemma reads_tail_events:
  "reads_of ([LoadU x'] @ (if 2 \<le> R then [StoreL y'] else [])
          @ (if odd R then [StoreSS (if 2 \<le> (R::nat) then y' + 2 else y')] else [])) = [x'..<x' + 4]"
  by (simp add: reads_of_def upt_conv_Cons)

section \<open>Lemmas: the whole call\<close>

text \<open>
  A call with valid arguments returns; it changes the output buffer only, and where the
  output buffer does not start inside the input buffer above its first cell, every output
  cell holds the maximum of the input cell and zero.
\<close>

lemma kernel_eq:
  assumes "n \<noteq> 0" "n mod 4 = 0" "x \<noteq> 0" "y \<noteq> 0"
  shows "xnn_f32_relu_ukernel__sse_x4 n x y p s =
     Some (if n mod 16 \<noteq> 0
           then tail (n mod 16) (x + 4 * (n div 16)) (y + 4 * (n div 16)) mm_setzero_ps
                  (loop_machine n x y s)
           else loop_machine n x y s)"
  using assms by (simp add: xnn_f32_relu_ukernel__sse_x4_def Let_def main_loop_eq)

lemma kernel_unfold:
  assumes "R < 4" "1 \<le> 4 * K + R" "x \<noteq> 0" "y \<noteq> 0"
  shows "xnn_f32_relu_ukernel__sse_x4 ((4 * K + R) * 4) x y p s =
     Some (if R \<noteq> 0
           then tail (4 * R) (x + 4 * K) (y + 4 * K) mm_setzero_ps
                  (loop_machine ((4 * K + R) * 4) x y s)
           else loop_machine ((4 * K + R) * 4) x y s)"
proof -
  have "(4 * K + R) * 4 \<noteq> 0"
    using assms(2) by arith
  moreover have "(4 * K + R) * 4 mod 4 = 0"
    by simp
  ultimately
  have "xnn_f32_relu_ukernel__sse_x4 ((4 * K + R) * 4) x y p s =
     Some (if (4 * K + R) * 4 mod 16 \<noteq> 0
           then tail ((4 * K + R) * 4 mod 16) (x + 4 * ((4 * K + R) * 4 div 16))
                  (y + 4 * ((4 * K + R) * 4 div 16)) mm_setzero_ps
                  (loop_machine ((4 * K + R) * 4) x y s)
           else loop_machine ((4 * K + R) * 4) x y s)"
    using assms(3,4) by (rule kernel_eq)
  then show ?thesis
    unfolding bytes_div_mod [OF assms(1)] by simp
qed

lemma kernel_Some:
  assumes "1 \<le> N" "x \<noteq> 0" "y \<noteq> 0"
  shows "\<exists>t. xnn_f32_relu_ukernel__sse_x4 (N * 4) x y p s = Some t"
proof -
  from assms(1) have "N * 4 \<noteq> 0" by arith
  moreover have "N * 4 mod 4 = 0" by simp
  ultimately have "xnn_f32_relu_ukernel__sse_x4 (N * 4) x y p s =
     Some (if N * 4 mod 16 \<noteq> 0
           then tail (N * 4 mod 16) (x + 4 * (N * 4 div 16)) (y + 4 * (N * 4 div 16))
                  mm_setzero_ps (loop_machine (N * 4) x y s)
           else loop_machine (N * 4) x y s)"
    using assms(2,3) by (rule kernel_eq)
  then show ?thesis by (rule exI)
qed

lemma kernel_frame_KR:
  assumes R: "R < 4" and N: "1 \<le> 4 * K + R" and x: "x \<noteq> 0" and y: "y \<noteq> 0"
    and t: "xnn_f32_relu_ukernel__sse_x4 ((4 * K + R) * 4) x y p s = Some t"
    and a: "\<not> (y \<le> a \<and> a < y + (4 * K + R))"
  shows "mem t a = mem s a"
proof -
  have "\<not> (y \<le> a \<and> a < y + 4 * ((4 * K + R) * 4 div 16))"
    unfolding bytes_div_mod [OF R] using a by arith
  then have l: "mem (loop_machine ((4 * K + R) * 4) x y s) a = mem s a"
    by (rule frame_loop_machine)
  have eq: "t = (if R \<noteq> 0
           then tail (4 * R) (x + 4 * K) (y + 4 * K) mm_setzero_ps
                  (loop_machine ((4 * K + R) * 4) x y s)
           else loop_machine ((4 * K + R) * 4) x y s)"
    using t unfolding kernel_unfold [OF R N x y] by simp
  show ?thesis
  proof (cases "R = 0")
    case True
    with eq l show ?thesis by simp
  next
    case False
    with R have r: "R \<in> {1, 2, 3}" by auto
    from False eq have "t = tail (4 * R) (x + 4 * K) (y + 4 * K) mm_setzero_ps
                  (loop_machine ((4 * K + R) * 4) x y s)"
      by simp
    moreover have "\<not> (y + 4 * K \<le> a \<and> a < y + 4 * K + R)"
      using a by arith
    ultimately show ?thesis using l by (simp only: mem_tail [OF r] if_False)
  qed
qed

lemma kernel_values_KR:
  assumes R: "R < 4" and N: "1 \<le> 4 * K + R" and x: "x \<noteq> 0" and y: "y \<noteq> 0"
    and t: "xnn_f32_relu_ukernel__sse_x4 ((4 * K + R) * 4) x y p s = Some t"
    and al: "y \<le> x \<or> x + (4 * K + R) \<le> y"
    and i: "i < 4 * K + R"
  shows "mem t (y + i) = max_lane (mem s (x + i)) 0"
proof -
  let ?l = "loop_machine ((4 * K + R) * 4) x y s"
  have al': "y \<le> x \<or> x + 4 * ((4 * K + R) * 4 div 16) \<le> y"
    unfolding bytes_div_mod [OF R] using al by arith
  have low: "mem ?l (y + j) = max_lane (mem s (x + j)) 0" if "j < 4 * K" for j
    using that by (intro mem_loop_machine [OF al']) (simp only: bytes_div_mod [OF R])
  have eq: "t = (if R \<noteq> 0 then tail (4 * R) (x + 4 * K) (y + 4 * K) mm_setzero_ps ?l else ?l)"
    using t unfolding kernel_unfold [OF R N x y] by simp
  show ?thesis
  proof (cases "R = 0")
    case True
    with eq have "t = ?l" by (simp only: if_False simp_thms)
    moreover have "i < 4 * K" using i True by simp
    ultimately show ?thesis by (simp only: low)
  next
    case False
    with R have r: "R \<in> {1, 2, 3}" by auto
    from False eq have t: "t = tail (4 * R) (x + 4 * K) (y + 4 * K) mm_setzero_ps ?l"
      by simp
    show ?thesis
    proof (cases "i < 4 * K")
      case True
      then have "\<not> (y + 4 * K \<le> y + i \<and> y + i < y + 4 * K + R)" by arith
      then have "mem t (y + i) = mem ?l (y + i)"
        unfolding t by (simp only: mem_tail [OF r] if_False)
      with True show ?thesis by (simp only: low)
    next
      case False
      then obtain j where j: "i = 4 * K + j" using le_Suc_ex [of "4 * K" i] by auto
      with i have jR: "j < R" by simp
      have "\<not> (y \<le> x + 4 * K + j \<and> x + 4 * K + j < y + 4 * ((4 * K + R) * 4 div 16))"
        unfolding bytes_div_mod [OF R] using al jR by arith
      then have "mem ?l (x + 4 * K + j) = mem s (x + 4 * K + j)"
        by (rule frame_loop_machine)
      moreover have "mem t (y + 4 * K + j) = max_lane (mem ?l (x + 4 * K + j)) 0"
        unfolding t using jR by (simp add: mem_tail [OF r])
      ultimately show ?thesis by (simp add: j add.assoc)
    qed
  qed
qed

lemma kernel_frame:
  assumes "1 \<le> N" "x \<noteq> 0" "y \<noteq> 0"
    and "xnn_f32_relu_ukernel__sse_x4 (N * 4) x y p s = Some t"
    and "\<not> (y \<le> a \<and> a < y + N)"
  shows "mem t a = mem s a"
proof -
  have N: "4 * (N div 4) + N mod 4 = N" and R: "N mod 4 < 4" by simp_all
  from assms show ?thesis
    using kernel_frame_KR [of "N mod 4" "N div 4" x y p s t a, unfolded N, OF R] by blast
qed

lemma kernel_values:
  assumes "1 \<le> N" "x \<noteq> 0" "y \<noteq> 0"
    and "xnn_f32_relu_ukernel__sse_x4 (N * 4) x y p s = Some t"
    and "y \<le> x \<or> x + N \<le> y"
    and "i < N"
  shows "mem t (y + i) = max_lane (mem s (x + i)) 0"
proof -
  have N: "4 * (N div 4) + N mod 4 = N" and R: "N mod 4 < 4" by simp_all
  from assms show ?thesis
    using kernel_values_KR [of "N mod 4" "N div 4" x y p s t i, unfolded N, OF R] by blast
qed

lemma kernel_mem_cong:
  assumes "mem s1 = mem s2"
  shows "map_option mem (xnn_f32_relu_ukernel__sse_x4 n x y p1 s1)
       = map_option mem (xnn_f32_relu_ukernel__sse_x4 n x y p2 s2)"
proof (cases "n \<noteq> 0 \<and> n mod 4 = 0 \<and> x \<noteq> 0 \<and> y \<noteq> 0")
  case True
  note l = loop_machine_mem_cong [OF assms, of n x y]
  note tl = tail_mem_cong [OF l, of "n mod 16" "x + 4 * (n div 16)" "y + 4 * (n div 16)"]
  from True l tl show ?thesis
    by (simp add: kernel_eq)
next
  case False
  then show ?thesis by (auto simp: xnn_f32_relu_ukernel__sse_x4_def)
qed

lemma kernel_trace_KR:
  assumes R: "R < 4" and N: "1 \<le> 4 * K + R" and x: "x \<noteq> 0" and y: "y \<noteq> 0"
    and t: "xnn_f32_relu_ukernel__sse_x4 ((4 * K + R) * 4) x y p s = Some t"
  shows "trace t = trace s @ concat (map (\<lambda>k. [LoadU (x + 4 * k), StoreU (y + 4 * k)]) [0..<K])
     @ (if R = 0 then []
        else [LoadU (x + 4 * K)] @ (if 2 \<le> R then [StoreL (y + 4 * K)] else [])
          @ (if odd R then [StoreSS (if 2 \<le> R then y + 4 * K + 2 else y + 4 * K)] else []))"
proof -
  let ?l = "loop_machine ((4 * K + R) * 4) x y s"
  have eq: "t = (if R \<noteq> 0 then tail (4 * R) (x + 4 * K) (y + 4 * K) mm_setzero_ps ?l else ?l)"
    using t unfolding kernel_unfold [OF R N x y] by simp
  have l: "trace ?l = trace s @ concat (map (\<lambda>k. [LoadU (x + 4 * k), StoreU (y + 4 * k)]) [0..<K])"
    unfolding trace_loop_machine bytes_div_mod [OF R] ..
  show ?thesis
  proof (cases "R = 0")
    case True
    with eq l show ?thesis by simp
  next
    case False
    with R have r: "R \<in> {1, 2, 3}" by auto
    from False eq have "t = tail (4 * R) (x + 4 * K) (y + 4 * K) mm_setzero_ps ?l" by simp
    then show ?thesis using False by (simp only: trace_tail [OF r] l if_False append_assoc)
  qed
qed

lemma kernel_trace:
  assumes "1 \<le> N" "x \<noteq> 0" "y \<noteq> 0"
    and "xnn_f32_relu_ukernel__sse_x4 (N * 4) x y p s = Some t"
  shows "trace t = trace s @ concat (map (\<lambda>k. [LoadU (x + 4 * k), StoreU (y + 4 * k)]) [0..<N div 4])
     @ (if N mod 4 = 0 then []
        else [LoadU (x + 4 * (N div 4))] @ (if 2 \<le> N mod 4 then [StoreL (y + 4 * (N div 4))] else [])
          @ (if odd (N mod 4) then [StoreSS (if 2 \<le> N mod 4 then y + 4 * (N div 4) + 2 else y + 4 * (N div 4))] else []))"
proof -
  have N: "4 * (N div 4) + N mod 4 = N" and R: "N mod 4 < 4" by simp_all
  from assms show ?thesis
    using kernel_trace_KR [of "N mod 4" "N div 4" x y p s t, unfolded N, OF R] by blast
qed

lemma buffer_eqI:
  assumes "\<And>i. i < N \<Longrightarrow> mem t1 (p + i) = mem t2 (q + i)"
  shows "buffer t1 p N = buffer t2 q N"
  unfolding buffer_def by (rule nth_equalityI) (simp_all add: assms)

lemma buffer_5:
  "buffer s p 5 = [mem s p, mem s (p + 1), mem s (p + 2), mem s (p + 3), mem s (p + 4)]"
  by (simp add: buffer_def upt_conv_Cons eval_nat_numeral)

section \<open>Lemmas: the kernel under memory protection\<close>

text \<open>
  Under protection the call returns exactly when the cells the plain call reads are
  readable and the cells it writes are writable, and then with the machine of the plain
  call; otherwise it ends with a memory fault.
\<close>

lemma four_cells: "{p, p + 1, p + 2, p + 3} = {p..<p + (4::nat)}"
  by auto

lemma split_four: "{p..<p + 4 * Suc k} = {p..<p + 4} \<union> {p + 4..<p + 4 + 4 * k}"
  by auto

lemma permitted_LoadU: "permitted pr (LoadU p) = ({p..<p + 4} \<subseteq> readable pr)"
  by (simp add: permitted_def four_cells [symmetric])

lemma permitted_StoreU: "permitted pr (StoreU p) = ({p..<p + 4} \<subseteq> writable pr)"
  by (simp add: permitted_def four_cells [symmetric])

lemma permitted_StoreL: "permitted pr (StoreL p) = ({p..<p + 2} \<subseteq> writable pr)"
proof -
  have "{p, p + 1} = {p..<p + 2}" by auto
  then show ?thesis by (simp add: permitted_def)
qed

lemma permitted_StoreSS: "permitted pr (StoreSS p) = ({p..<p + 1} \<subseteq> writable pr)"
  by (simp add: permitted_def)

lemma main_loop_prot_lt: "n < 16 \<Longrightarrow> main_loop_prot pr n x y vz s = Inr (n, x, y, s)"
  by (subst main_loop_prot.simps) simp

lemma main_loop_prot_ge:
  "16 \<le> n \<Longrightarrow> main_loop_prot pr n x y mm_setzero_ps s =
     (if {x..<x + 4} \<subseteq> readable pr \<and> {y..<y + 4} \<subseteq> writable pr
      then main_loop_prot pr (n - 16) (x + 4) (y + 4) mm_setzero_ps (chunk x y s)
      else Inl SegFault)"
  by (subst main_loop_prot.simps)
     (simp add: mm_loadu_ps_prot_def mm_storeu_ps_prot_def permitted_LoadU permitted_StoreU
        chunk_def Let_def split: prod.splits)

lemma main_loop_prot_eq:
  "main_loop_prot pr n x y mm_setzero_ps s =
     (if {x..<x + 4 * (n div 16)} \<subseteq> readable pr \<and> {y..<y + 4 * (n div 16)} \<subseteq> writable pr
      then Inr (main_loop n x y mm_setzero_ps s) else Inl SegFault)"
proof (induction n arbitrary: x y s rule: less_induct)
  case (less n)
  show ?case
  proof (cases "16 \<le> n")
    case True
    then have d: "n div 16 = Suc ((n - 16) div 16)"
      by (simp add: le_div_geq)
    from True have lt: "n - 16 < n" by simp
    show ?thesis
      unfolding main_loop_prot_ge [OF True] main_loop_ge [OF True] less.IH [OF lt] d split_four
      by (simp add: add.assoc)
  next
    case False
    then show ?thesis by (simp add: main_loop_prot_lt main_loop_lt)
  qed
qed


lemma cells_one: "({p..<p + 1} \<subseteq> A) = (p \<in> A)" for p :: nat
  by auto

lemma cells_two: "({p..<p + 2} \<subseteq> A) = (p \<in> A \<and> p + 1 \<in> A)" for p :: nat
proof -
  have "{p..<p + 2} = {p, p + 1}" by auto
  then show ?thesis by simp
qed

lemma cells_three: "({p..<p + 3} \<subseteq> A) = (p \<in> A \<and> p + 1 \<in> A \<and> p + 2 \<in> A)" for p :: nat
proof -
  have "{p..<p + 3} = {p, p + 1, p + 2}" by auto
  then show ?thesis by simp
qed

lemma cells_four:
  "({p..<p + 4} \<subseteq> A) = (p \<in> A \<and> p + 1 \<in> A \<and> p + 2 \<in> A \<and> p + 3 \<in> A)" for p :: nat
  by (simp add: four_cells [symmetric])

lemma tail_prot_eq:
  assumes "r \<in> {1, 2, 3}"
  shows "tail_prot pr (4 * r) x y mm_setzero_ps s =
     (if {x..<x + 4} \<subseteq> readable pr \<and> {y..<y + r} \<subseteq> writable pr
      then Inr (tail (4 * r) x y mm_setzero_ps s) else Inl SegFault)"
proof -
  from assms consider "r = 1" | "r = 2" | "r = 3" by auto
  then show ?thesis
  proof cases
    case 1
    show ?thesis
      unfolding 1 cells_one cells_four
      by (auto simp add: tail_prot_def tail_def mm_loadu_ps_prot_def mm_store_ss_prot_def
            permitted_def mm_loadu_ps_def mm_setzero_ps_def Let_def)
  next
    case 2
    show ?thesis
      unfolding 2 cells_two cells_four
      by (auto simp add: tail_prot_def tail_def mm_loadu_ps_prot_def mm_storel_pi_prot_def
            permitted_def mm_loadu_ps_def mm_setzero_ps_def Let_def)
  next
    case 3
    show ?thesis
      unfolding 3 cells_three cells_four
      by (auto simp add: tail_prot_def tail_def mm_loadu_ps_prot_def mm_storel_pi_prot_def
            mm_store_ss_prot_def permitted_def mm_loadu_ps_def mm_setzero_ps_def Let_def)
  qed
qed

lemma ceil_four: "4 * ((N + 3) div 4) = 4 * (N div 4) + (if N mod 4 = 0 then 0 else (4::nat))"
proof -
  have s: "(N + 3) div 4 = N div 4 + (N mod 4 + 3) div 4"
    using div_add1_eq [of N 3 4] by simp
  have "N mod 4 = 0 \<or> N mod 4 = 1 \<or> N mod 4 = 2 \<or> N mod 4 = 3" by arith
  then have "(N mod 4 + 3) div 4 = (if N mod 4 = 0 then 0 else 1)"
    by (elim disjE) simp_all
  with s show ?thesis by simp
qed


lemma kernel_prot_unfold:
  assumes "n \<noteq> 0" and "n mod 4 = 0" and "x \<noteq> 0" and "y \<noteq> 0"
  shows "xnn_f32_relu_ukernel__sse_x4_prot pr n x y p s =
     (case main_loop_prot pr n x y mm_setzero_ps s of
        Inl e \<Rightarrow> Inl e
      | Inr (n', x', y', s') \<Rightarrow>
          (if n' \<noteq> 0 then tail_prot pr n' x' y' mm_setzero_ps s' else Inr s'))"
  using assms by (simp add: xnn_f32_relu_ukernel__sse_x4_prot_def Let_def)

lemma kernel_prot_KR:
  assumes R: "R < 4" and N: "1 \<le> 4 * K + R" and x: "x \<noteq> 0" and y: "y \<noteq> 0"
  shows "xnn_f32_relu_ukernel__sse_x4_prot pr ((4 * K + R) * 4) x y p s =
     (if {x..<x + 4 * K + (if R = 0 then 0 else 4)} \<subseteq> readable pr \<and>
         {y..<y + 4 * K + R} \<subseteq> writable pr
      then Inr (if R \<noteq> 0
                then tail (4 * R) (x + 4 * K) (y + 4 * K) mm_setzero_ps
                       (loop_machine ((4 * K + R) * 4) x y s)
                else loop_machine ((4 * K + R) * 4) x y s)
      else Inl SegFault)"
proof -
  define n where "n = (4 * K + R) * 4"
  define l where "l = loop_machine n x y s"
  have n0: "n \<noteq> 0" unfolding n_def using N by arith
  have n4: "n mod 4 = 0" unfolding n_def by simp
  note k = kernel_prot_unfold [OF n0 n4 x y, of pr p s]
  have ml: "main_loop_prot pr n x y mm_setzero_ps s =
     (if {x..<x + 4 * K} \<subseteq> readable pr \<and> {y..<y + 4 * K} \<subseteq> writable pr
      then Inr (4 * R, x + 4 * K, y + 4 * K, l) else Inl SegFault)"
    unfolding main_loop_prot_eq main_loop_eq l_def n_def bytes_div_mod [OF R] ..
  have goal: "xnn_f32_relu_ukernel__sse_x4_prot pr n x y p s =
     (if {x..<x + 4 * K + (if R = 0 then 0 else 4)} \<subseteq> readable pr \<and>
         {y..<y + 4 * K + R} \<subseteq> writable pr
      then Inr (if R \<noteq> 0 then tail (4 * R) (x + 4 * K) (y + 4 * K) mm_setzero_ps l else l)
      else Inl SegFault)"
  proof (cases "R = 0")
    case True
    then show ?thesis unfolding k ml by simp
  next
    case False
    with R have r: "R \<in> {1, 2, 3}" by auto
    have ex: "{x..<x + 4 * K + 4} = {x..<x + 4 * K} \<union> {x + 4 * K..<x + 4 * K + 4}"
      by (simp add: ivl_disj_un_two(3))
    have ey: "{y..<y + 4 * K + R} = {y..<y + 4 * K} \<union> {y + 4 * K..<y + 4 * K + R}"
      by (simp add: ivl_disj_un_two(3))
    have ux: "({x..<x + 4 * K + 4} \<subseteq> readable pr) =
        ({x..<x + 4 * K} \<subseteq> readable pr \<and> {x + 4 * K..<x + 4 * K + 4} \<subseteq> readable pr)"
      unfolding ex by (rule Un_subset_iff)
    have uy: "({y..<y + 4 * K + R} \<subseteq> writable pr) =
        ({y..<y + 4 * K} \<subseteq> writable pr \<and> {y + 4 * K..<y + 4 * K + R} \<subseteq> writable pr)"
      unfolding ey by (rule Un_subset_iff)
    have nz: "4 * R \<noteq> 0" using False by simp
    have rhs: "(if {x..<x + 4 * K + (if R = 0 then 0 else 4)} \<subseteq> readable pr \<and>
         {y..<y + 4 * K + R} \<subseteq> writable pr
      then Inr (if R \<noteq> 0 then tail (4 * R) (x + 4 * K) (y + 4 * K) mm_setzero_ps l else l)
      else Inl SegFault) =
      (if ({x..<x + 4 * K} \<subseteq> readable pr \<and> {x + 4 * K..<x + 4 * K + 4} \<subseteq> readable pr) \<and>
          ({y..<y + 4 * K} \<subseteq> writable pr \<and> {y + 4 * K..<y + 4 * K + R} \<subseteq> writable pr)
       then Inr (tail (4 * R) (x + 4 * K) (y + 4 * K) mm_setzero_ps l) else Inl SegFault)"
      using False by (simp only: if_False if_True simp_thms ux uy)
    show ?thesis
    proof (cases "{x..<x + 4 * K} \<subseteq> readable pr \<and> {y..<y + 4 * K} \<subseteq> writable pr")
      case True
      then have "xnn_f32_relu_ukernel__sse_x4_prot pr n x y p s =
          tail_prot pr (4 * R) (x + 4 * K) (y + 4 * K) mm_setzero_ps l"
        unfolding k ml using nz by simp
      then show ?thesis
        unfolding rhs tail_prot_eq [OF r] using True by simp
    next
      case False
      then have "xnn_f32_relu_ukernel__sse_x4_prot pr n x y p s = Inl SegFault"
        unfolding k ml by auto
      then show ?thesis unfolding rhs using False by auto
    qed
  qed
  then show ?thesis unfolding l_def n_def .
qed

lemma kernel_prot_N:
  assumes "1 \<le> N" and "x \<noteq> 0" and "y \<noteq> 0"
    and "xnn_f32_relu_ukernel__sse_x4 (N * 4) x y p s = Some t"
  shows "xnn_f32_relu_ukernel__sse_x4_prot pr (N * 4) x y p s =
     (if {x..<x + 4 * ((N + 3) div 4)} \<subseteq> readable pr \<and> {y..<y + N} \<subseteq> writable pr
      then Inr t else Inl SegFault)"
proof -
  have R: "N mod 4 < 4" by simp
  have N: "1 \<le> 4 * (N div 4) + N mod 4" using assms(1) by simp
  have yN: "y + 4 * (N div 4) + N mod 4 = y + N" by (simp add: add.assoc)
  have xN: "x + 4 * (N div 4) + (if N mod 4 = 0 then 0 else 4) = x + 4 * ((N + 3) div 4)"
    by (simp only: ceil_four add.assoc)
  have "Some t = Some (if N mod 4 \<noteq> 0
                then tail (4 * (N mod 4)) (x + 4 * (N div 4)) (y + 4 * (N div 4)) mm_setzero_ps
                       (loop_machine (N * 4) x y s)
                else loop_machine (N * 4) x y s)"
    using assms(4) kernel_unfold [OF R N assms(2,3), of p s, unfolded count_split(1)] by simp
  then have t: "(if N mod 4 \<noteq> 0
                then tail (4 * (N mod 4)) (x + 4 * (N div 4)) (y + 4 * (N div 4)) mm_setzero_ps
                       (loop_machine (N * 4) x y s)
                else loop_machine (N * 4) x y s) = t" by simp
  show ?thesis
    using kernel_prot_KR [OF R N assms(2,3), of pr p s, unfolded count_split(1) yN xN t] .
qed


lemma kernel_trace_bound:
  assumes "n \<noteq> 0" and "n mod 4 = 0" and "x \<noteq> 0" and "y \<noteq> 0"
  shows "\<exists>t. xnn_f32_relu_ukernel__sse_x4 n x y params s = Some t \<and>
              length (trace t) \<le> length (trace s) + 2 * (n div 16) + 3"
proof -
  let ?l = "loop_machine n x y s"
  let ?t = "if n mod 16 \<noteq> 0
            then tail (n mod 16) (x + 4 * (n div 16)) (y + 4 * (n div 16)) mm_setzero_ps ?l else ?l"
  have k: "xnn_f32_relu_ukernel__sse_x4 n x y params s = Some ?t"
    using assms by (rule kernel_eq)
  have ll: "length (trace ?l) = length (trace s) + 2 * (n div 16)"
    by (simp only: trace_loop_machine length_append length_chunks)
  have "length (trace ?t) \<le> length (trace ?l) + 3"
    using length_trace_tail [of "n mod 16" "x + 4 * (n div 16)" "y + 4 * (n div 16)" ?l] by simp
  with ll have "length (trace ?t) \<le> length (trace s) + 2 * (n div 16) + 3" by simp
  with k show ?thesis by blast
qed

lemma cells_mono: "b \<le> c \<Longrightarrow> {a..<a + c} \<subseteq> A \<Longrightarrow> {a..<a + b} \<subseteq> A" for a :: nat
  by (auto simp: subset_iff)

section \<open>Functional correctness\<close>

text \<open>
  C1. For every element count \<open>N \<ge> 1\<close> and every input buffer of \<open>N\<close> finite
  floats, a call with \<open>n = N * sizeof(float)\<close> returns, and afterwards every output
  element is a finite float whose value is \<open>max(x[i], 0)\<close>. The output buffer may
  be the input buffer itself, start below it, or lie wholly above it. The cells that the
  tail load reads beyond the input buffer have no influence.
\<close>

theorem relu_output_is_max:
  assumes "1 \<le> N" and "x \<noteq> 0" and "y \<noteq> 0"
    and "y \<le> x \<or> x + N \<le> y"
    and "\<forall>i<N. f32_is_finite (mem s (x + i))"
  shows "\<exists>t. xnn_f32_relu_ukernel__sse_x4 (N * sizeof_float) x y params s = Some t \<and>
           (\<forall>i<N. f32_is_finite (mem t (y + i)) \<and>
                   f32_valof (mem t (y + i)) = max (f32_valof (mem s (x + i))) 0)"
proof -
  from kernel_Some [OF assms(1-3)]
  obtain t where t: "xnn_f32_relu_ukernel__sse_x4 (N * 4) x y params s = Some t" by blast
  have "f32_is_finite (mem t (y + i)) \<and>
        f32_valof (mem t (y + i)) = max (f32_valof (mem s (x + i))) 0" if "i < N" for i
  proof -
    from that assms(5) have "f32_is_finite (mem s (x + i))" by simp
    then show ?thesis
      unfolding kernel_values [OF assms(1-3) t assms(4) that]
      by (simp add: relu_valof relu_finite)
  qed
  with t show ?thesis by blast
qed

theorem relu_output_is_max_witness:
  "\<exists>t. xnn_f32_relu_ukernel__sse_x4 (5 * sizeof_float) 1 20 0 (machine_of (image_at 1 mixed)) = Some t \<and>
     (\<forall>i<5. f32_is_finite (mem t (20 + i)) \<and>
        f32_valof (mem t (20 + i)) = max (f32_valof (mem (machine_of (image_at 1 mixed)) (1 + i))) 0)"
proof (rule relu_output_is_max)
  show "\<forall>i<5. f32_is_finite (mem (machine_of (image_at 1 mixed)) (1 + i))"
    unfolding all_below_list by code_simp
qed simp_all

section \<open>The window of the tail load\<close>

text \<open>
  C2, as the code has it. When \<open>R = N mod 4\<close> is not zero the main loop leaves the
  input pointer at element \<open>N - R\<close>, the first one it has not processed, and the tail
  makes one load there: it reads the four elements \<open>N - R, \<dots>, N - R + 3\<close>. The
  first \<open>R\<close> of them are the rest of the buffer; the other \<open>4 - R\<close> are the
  elements \<open>N, \<dots>, N + 3 - R\<close> behind its end. The window is not moved back to end
  with the buffer.
\<close>

theorem tail_load_window:
  assumes "1 \<le> N" and "N mod 4 \<noteq> 0" and "x \<noteq> 0" and "y \<noteq> 0"
  shows "\<exists>n' x' y' s' tl.
           main_loop (N * sizeof_float) x y mm_setzero_ps s = (n', x', y', s') \<and> n' \<noteq> 0 \<and>
           xnn_f32_relu_ukernel__sse_x4 (N * sizeof_float) x y params s
             = Some (tail n' x' y' mm_setzero_ps s') \<and>
           x' = x + (N - N mod 4) \<and>
           trace (tail n' x' y' mm_setzero_ps s') = trace s' @ tl \<and>
           reads_of tl = [x + (N - N mod 4)..<x + N + (4 - N mod 4)]"
proof -
  let ?R = "N mod 4" and ?K = "N div 4"
  let ?l = "loop_machine (N * 4) x y s"
  let ?tl = "[LoadU (x + 4 * ?K)] @ (if 2 \<le> ?R then [StoreL (y + 4 * ?K)] else [])
          @ (if odd ?R then [StoreSS (if 2 \<le> ?R then y + 4 * ?K + 2 else y + 4 * ?K)] else [])"
  from assms(2) have r: "?R \<in> {1, 2, 3}" by auto
  have loop: "main_loop (N * 4) x y mm_setzero_ps s = (4 * ?R, x + 4 * ?K, y + 4 * ?K, ?l)"
    by (simp only: main_loop_eq bytes_div_mod_N)
  have nz: "4 * ?R \<noteq> 0" using assms(2) by simp
  have k: "xnn_f32_relu_ukernel__sse_x4 (N * 4) x y params s
             = Some (tail (4 * ?R) (x + 4 * ?K) (y + 4 * ?K) mm_setzero_ps ?l)"
    using kernel_unfold [of ?R ?K x y params s] assms unfolding count_split(1) by simp
  have xe: "x + 4 * ?K = x + (N - ?R)" by (simp only: count_split(3))
  have tr: "trace (tail (4 * ?R) (x + 4 * ?K) (y + 4 * ?K) mm_setzero_ps ?l) = trace ?l @ ?tl"
    by (simp only: trace_tail [OF r])
  have "x + 4 * ?K + 4 = x + N + (4 - ?R)"
    using count_split(1) [of N] count_split(2) [of N] by arith
  then have rd: "reads_of ?tl = [x + (N - ?R)..<x + N + (4 - ?R)]"
    by (simp only: reads_tail_events xe)
  from loop nz k xe tr rd show ?thesis by blast
qed

theorem tail_load_window_witness:
  "\<exists>n' x' y' s' tl.
     main_loop (5 * sizeof_float) 1 20 mm_setzero_ps (machine_of (image_at 1 mixed)) = (n', x', y', s') \<and>
     n' \<noteq> 0 \<and>
     xnn_f32_relu_ukernel__sse_x4 (5 * sizeof_float) 1 20 0 (machine_of (image_at 1 mixed))
       = Some (tail n' x' y' mm_setzero_ps s') \<and>
     x' = 1 + (5 - 5 mod 4) \<and>
     trace (tail n' x' y' mm_setzero_ps s') = trace s' @ tl \<and>
     reads_of tl = [1 + (5 - 5 mod 4)..<1 + 5 + (4 - 5 mod 4)]"
  by (rule tail_load_window) simp_all

text \<open>
  C2 as first stated, that the tail load reads only elements \<open>0, \<dots>, N - 1\<close> of the
  input, fails already for one float: with the input buffer at cell 1 and \<open>N = 1\<close>
  the call reads cells 1 to 4, and cells 2, 3 and 4 are outside the buffer.
\<close>

theorem tail_load_within_buffer_counterexample:
  "map_option (reads_of \<circ> trace)
     (xnn_f32_relu_ukernel__sse_x4 (1 * sizeof_float) 1 20 0 (machine_of (image_at 1 [0x3F800000])))
     = Some [1, 2, 3, 4] \<and> \<not> set [1, 2, 3, 4] \<subseteq> {1..<1 + (1::nat)}"
  by (simp add: xnn_f32_relu_ukernel__sse_x4_def main_loop_lt tail_def mm_loadu_ps_def
        mm_setzero_ps_def machine_of_def reads_of_def)

section \<open>What the call writes\<close>

text \<open>
  C3. A call with element count \<open>N\<close> writes the output elements \<open>0, \<dots>, N - 1\<close>
  and nothing else. After the main loop's events the trace holds, when \<open>N mod 4\<close>
  is not zero, the tail's load, then a two-lane store if bit \<open>2 * sizeof(float)\<close>
  of \<open>n\<close> is set, then a one-lane store if bit \<open>sizeof(float)\<close> is set; these
  stores write exactly the elements \<open>N - N mod 4, \<dots>, N - 1\<close>. All stores of the
  call together write the cells of the output buffer in ascending order, each once, and
  every cell outside the output buffer keeps its contents.
\<close>

theorem writes_confined:
  assumes "1 \<le> N" and "x \<noteq> 0" and "y \<noteq> 0"
  shows "\<exists>t main tl.
     xnn_f32_relu_ukernel__sse_x4 (N * sizeof_float) x y params s = Some t \<and>
     trace t = trace s @ main @ tl \<and>
     main = concat (map (\<lambda>k. [LoadU (x + 4 * k), StoreU (y + 4 * k)]) [0..<N div 4]) \<and>
     tl = (if N mod 4 = 0 then []
           else [LoadU (x + 4 * (N div 4))]
             @ (if N * sizeof_float AND 2 * sizeof_float \<noteq> 0 then [StoreL (y + 4 * (N div 4))] else [])
             @ (if N * sizeof_float AND 1 * sizeof_float \<noteq> 0
                then [StoreSS (if N * sizeof_float AND 2 * sizeof_float \<noteq> 0
                               then y + 4 * (N div 4) + 2 else y + 4 * (N div 4))]
                else [])) \<and>
     writes_of tl = [y + (N - N mod 4)..<y + N] \<and>
     writes_of (main @ tl) = [y..<y + N] \<and>
     (\<forall>a. \<not> (y \<le> a \<and> a < y + N) \<longrightarrow> mem t a = mem s a)"
proof -
  let ?R = "N mod 4" and ?K = "N div 4"
  let ?main = "concat (map (\<lambda>k. [LoadU (x + 4 * k), StoreU (y + 4 * k)]) [0..<?K])"
  let ?ev = "[LoadU (x + 4 * ?K)] @ (if 2 \<le> ?R then [StoreL (y + 4 * ?K)] else [])
             @ (if odd ?R then [StoreSS (if 2 \<le> ?R then y + 4 * ?K + 2 else y + 4 * ?K)] else [])"
  let ?tl = "if ?R = 0 then [] else ?ev"
  from kernel_Some [OF assms]
  obtain t where t: "xnn_f32_relu_ukernel__sse_x4 (N * 4) x y params s = Some t" by blast
  have tr: "trace t = trace s @ ?main @ ?tl"
    by (rule kernel_trace [OF assms t])
  have wt: "writes_of ?tl = [y + 4 * ?K..<y + 4 * ?K + ?R]"
  proof (cases "?R = 0")
    case True
    then show ?thesis by (simp add: writes_of_def)
  next
    case False
    then have r: "?R \<in> {1, 2, 3}" by auto
    from False show ?thesis by (simp only: writes_tail_events [OF r] if_False)
  qed
  have e: "y + 4 * ?K + ?R = y + N" by (simp only: add.assoc count_split(1))
  have wt': "writes_of ?tl = [y + (N - ?R)..<y + N]"
    using wt unfolding e by (simp only: count_split(3))
  have "writes_of (?main @ ?tl) = [y..<y + 4 * ?K] @ [y + 4 * ?K..<y + 4 * ?K + ?R]"
    by (simp only: writes_of_append writes_chunks wt)
  also have "\<dots> = [y..<y + 4 * ?K + ?R]"
    by (rule upt_add_eq_append [OF le_add1, symmetric])
  finally have wa: "writes_of (?main @ ?tl) = [y..<y + N]"
    by (simp only: e)
  have fr: "\<forall>a. \<not> (y \<le> a \<and> a < y + N) \<longrightarrow> mem t a = mem s a"
    using kernel_frame [OF assms t] by blast
  have tl: "?tl = (if N mod 4 = 0 then []
           else [LoadU (x + 4 * (N div 4))]
             @ (if N * 4 AND 2 * 4 \<noteq> 0 then [StoreL (y + 4 * (N div 4))] else [])
             @ (if N * 4 AND 1 * 4 \<noteq> 0
                then [StoreSS (if N * 4 AND 2 * 4 \<noteq> 0
                               then y + 4 * (N div 4) + 2 else y + 4 * (N div 4))]
                else []))"
    using bit_tests_N [of N] by simp
  from t tr wt' wa fr show ?thesis
    unfolding tl by blast
qed

theorem writes_confined_witness:
  "\<exists>t main tl.
     xnn_f32_relu_ukernel__sse_x4 (7 * sizeof_float) 1 20 0 (machine_of (image_at 1 mixed)) = Some t \<and>
     trace t = trace (machine_of (image_at 1 mixed)) @ main @ tl \<and>
     main = concat (map (\<lambda>k. [LoadU (1 + 4 * k), StoreU (20 + 4 * k)]) [0..<7 div 4]) \<and>
     tl = (if 7 mod 4 = (0::nat) then []
           else [LoadU (1 + 4 * (7 div 4))]
             @ (if 7 * sizeof_float AND 2 * sizeof_float \<noteq> 0 then [StoreL (20 + 4 * (7 div 4))] else [])
             @ (if 7 * sizeof_float AND 1 * sizeof_float \<noteq> 0
                then [StoreSS (if 7 * sizeof_float AND 2 * sizeof_float \<noteq> 0
                               then 20 + 4 * (7 div 4) + 2 else 20 + 4 * (7 div 4))]
                else [])) \<and>
     writes_of tl = [20 + (7 - 7 mod 4)..<20 + 7] \<and>
     writes_of (main @ tl) = [20..<20 + 7] \<and>
     (\<forall>a. \<not> (20 \<le> a \<and> a < 20 + 7) \<longrightarrow> mem t a = mem (machine_of (image_at 1 mixed)) a)"
  by (rule writes_confined) simp_all

section \<open>Aliasing and idempotence\<close>

text \<open>
  C4. In-place equivalence: for every \<open>N \<ge> 1\<close> and every memory, the call whose
  output buffer is the input buffer leaves in it the same contents that the call with a
  separate output buffer, disjoint from the input, leaves in that one.
\<close>

theorem in_place_same_result:
  assumes "1 \<le> N" and "x \<noteq> 0" and "y \<noteq> 0" and "x + N \<le> y \<or> y + N \<le> x"
  shows "\<exists>t1 t2. xnn_f32_relu_ukernel__sse_x4 (N * sizeof_float) x x params s = Some t1 \<and>
           xnn_f32_relu_ukernel__sse_x4 (N * sizeof_float) x y params s = Some t2 \<and>
           buffer t1 x N = buffer t2 y N"
proof -
  from kernel_Some [OF assms(1,2,2)]
  obtain t1 where t1: "xnn_f32_relu_ukernel__sse_x4 (N * 4) x x params s = Some t1" by blast
  from kernel_Some [OF assms(1-3)]
  obtain t2 where t2: "xnn_f32_relu_ukernel__sse_x4 (N * 4) x y params s = Some t2" by blast
  from assms(4) have al: "y \<le> x \<or> x + N \<le> y" by arith
  have "buffer t1 x N = buffer t2 y N"
  proof (rule buffer_eqI)
    fix i assume i: "i < N"
    have "mem t1 (x + i) = max_lane (mem s (x + i)) 0"
      by (rule kernel_values [OF assms(1,2,2) t1 _ i]) simp
    also have "\<dots> = mem t2 (y + i)"
      by (rule kernel_values [OF assms(1-3) t2 al i, symmetric])
    finally show "mem t1 (x + i) = mem t2 (y + i)" .
  qed
  with t1 t2 show ?thesis by simp
qed

theorem in_place_same_result_witness:
  "\<exists>t1 t2. xnn_f32_relu_ukernel__sse_x4 (5 * sizeof_float) 1 1 0 (machine_of (image_at 1 mixed)) = Some t1 \<and>
     xnn_f32_relu_ukernel__sse_x4 (5 * sizeof_float) 1 20 0 (machine_of (image_at 1 mixed)) = Some t2 \<and>
     buffer t1 1 5 = buffer t2 20 5"
  by (rule in_place_same_result) simp_all

text \<open>
  C5. Idempotence: applying the kernel to \<open>x\<close> and then again to the output of the
  first call yields, bit for bit, the output of the first call. The second call may run
  in place on the first output or write a further buffer.
\<close>

theorem relu_idempotent:
  assumes "1 \<le> N" and "x \<noteq> 0" and "y \<noteq> 0" and "z \<noteq> 0"
    and "y \<le> x \<or> x + N \<le> y" and "z \<le> y \<or> y + N \<le> z"
  shows "\<exists>t1 t2. xnn_f32_relu_ukernel__sse_x4 (N * sizeof_float) x y params s = Some t1 \<and>
           xnn_f32_relu_ukernel__sse_x4 (N * sizeof_float) y z params t1 = Some t2 \<and>
           buffer t2 z N = buffer t1 y N"
proof -
  from kernel_Some [OF assms(1-3)]
  obtain t1 where t1: "xnn_f32_relu_ukernel__sse_x4 (N * 4) x y params s = Some t1" by blast
  from kernel_Some [OF assms(1,3,4)]
  obtain t2 where t2: "xnn_f32_relu_ukernel__sse_x4 (N * 4) y z params t1 = Some t2" by blast
  have "buffer t2 z N = buffer t1 y N"
  proof (rule buffer_eqI)
    fix i assume i: "i < N"
    have "mem t2 (z + i) = max_lane (mem t1 (y + i)) 0"
      by (rule kernel_values [OF assms(1,3,4) t2 assms(6) i])
    also have "\<dots> = max_lane (max_lane (mem s (x + i)) 0) 0"
      by (simp only: kernel_values [OF assms(1-3) t1 assms(5) i])
    also have "\<dots> = mem t1 (y + i)"
      by (simp only: relu_idem kernel_values [OF assms(1-3) t1 assms(5) i])
    finally show "mem t2 (z + i) = mem t1 (y + i)" .
  qed
  with t1 t2 show ?thesis by simp
qed

theorem relu_idempotent_witness:
  "\<exists>t1 t2. xnn_f32_relu_ukernel__sse_x4 (5 * sizeof_float) 1 20 0 (machine_of (image_at 1 mixed)) = Some t1 \<and>
     xnn_f32_relu_ukernel__sse_x4 (5 * sizeof_float) 20 20 0 t1 = Some t2 \<and>
     buffer t2 20 5 = buffer t1 20 5"
  by (rule relu_idempotent) simp_all

section \<open>The parameter block\<close>

text \<open>
  C6. The parameter block does not interfere. Take two calls with the same \<open>n\<close>,
  \<open>x\<close> and \<open>y\<close>, whose memories differ only inside a set \<open>P\<close> of cells, the
  parameter block, that contains no cell of the input buffer; the two \<open>params\<close>
  pointers are arbitrary. Both calls return, their output buffers are identical, and
  afterwards the memories still differ only inside \<open>P\<close>.
\<close>

theorem params_noninterference:
  assumes "1 \<le> N" and "x \<noteq> 0" and "y \<noteq> 0" and "y \<le> x \<or> x + N \<le> y"
    and "\<forall>a. a \<notin> P \<longrightarrow> mem s1 a = mem s2 a"
    and "\<forall>i<N. x + i \<notin> P"
  shows "\<exists>t1 t2. xnn_f32_relu_ukernel__sse_x4 (N * sizeof_float) x y p1 s1 = Some t1 \<and>
           xnn_f32_relu_ukernel__sse_x4 (N * sizeof_float) x y p2 s2 = Some t2 \<and>
           buffer t1 y N = buffer t2 y N \<and>
           (\<forall>a. a \<notin> P \<longrightarrow> mem t1 a = mem t2 a)"
proof -
  from kernel_Some [OF assms(1-3)]
  obtain t1 where t1: "xnn_f32_relu_ukernel__sse_x4 (N * 4) x y p1 s1 = Some t1" by blast
  from kernel_Some [OF assms(1-3)]
  obtain t2 where t2: "xnn_f32_relu_ukernel__sse_x4 (N * 4) x y p2 s2 = Some t2" by blast
  have out: "mem t1 (y + i) = mem t2 (y + i)" if i: "i < N" for i
  proof -
    from i assms(5,6) have "mem s1 (x + i) = mem s2 (x + i)" by simp
    then show ?thesis
      by (simp only: kernel_values [OF assms(1-3) t1 assms(4) i]
                     kernel_values [OF assms(1-3) t2 assms(4) i])
  qed
  then have b: "buffer t1 y N = buffer t2 y N" by (rule buffer_eqI)
  have "mem t1 a = mem t2 a" if a: "a \<notin> P" for a
  proof (cases "y \<le> a \<and> a < y + N")
    case True
    then obtain i where "a = y + i" "i < N" using le_Suc_ex [of y a] by auto
    with out show ?thesis by simp
  next
    case False
    from a assms(5) have "mem s1 a = mem s2 a" by simp
    then show ?thesis
      by (simp only: kernel_frame [OF assms(1-3) t1 False] kernel_frame [OF assms(1-3) t2 False])
  qed
  with t1 t2 b show ?thesis by simp
qed

theorem params_noninterference_witness:
  "\<exists>t1 t2. xnn_f32_relu_ukernel__sse_x4 (5 * sizeof_float) 1 20 50 (machine_of (image_at 1 mixed)) = Some t1 \<and>
     xnn_f32_relu_ukernel__sse_x4 (5 * sizeof_float) 1 20 50
       (machine_of ((image_at 1 mixed)(50 := 0x3F800000, 51 := 0x40E00000))) = Some t2 \<and>
     buffer t1 20 5 = buffer t2 20 5 \<and>
     (\<forall>a. a \<notin> {50, 51} \<longrightarrow> mem t1 a = mem t2 a)"
proof (rule params_noninterference)
  show "\<forall>a. a \<notin> {50, 51} \<longrightarrow> mem (machine_of (image_at 1 mixed)) a =
      mem (machine_of ((image_at 1 mixed)(50 := 0x3F800000, 51 := 0x40E00000))) a"
    by (simp add: machine_of_def)
  show "\<forall>i<5. 1 + i \<notin> {50, 51::nat}" by auto
qed simp_all

section \<open>Multiples of the vector width\<close>

text \<open>
  C7. For every \<open>N\<close> that is a positive multiple of 4 the main loop ends with the
  residual byte count 0 and with both pointers at the end of their buffers, the machine
  the call returns is the one the main loop left, so the tail did not run, and the
  accesses of the call are the four-lane loads and stores of the loop only.
\<close>

theorem main_loop_only:
  assumes "1 \<le> N" and "N mod 4 = 0" and "x \<noteq> 0" and "y \<noteq> 0"
  shows "\<exists>s'. main_loop (N * sizeof_float) x y mm_setzero_ps s = (0, x + N, y + N, s') \<and>
           xnn_f32_relu_ukernel__sse_x4 (N * sizeof_float) x y params s = Some s' \<and>
           trace s' = trace s @ concat (map (\<lambda>k. [LoadU (x + 4 * k), StoreU (y + 4 * k)]) [0..<N div 4])"
proof -
  let ?l = "loop_machine (N * 4) x y s"
  from assms(2) have N: "4 * (N div 4) = N" by auto
  have loop: "main_loop (N * 4) x y mm_setzero_ps s = (0, x + N, y + N, ?l)"
    using assms(2) by (simp only: main_loop_eq bytes_div_mod_N N mult_0_right)
  have k: "xnn_f32_relu_ukernel__sse_x4 (N * 4) x y params s = Some ?l"
    using kernel_unfold [of "N mod 4" "N div 4" x y params s] assms unfolding count_split(1) by simp
  have tr: "trace ?l = trace s @ concat (map (\<lambda>k. [LoadU (x + 4 * k), StoreU (y + 4 * k)]) [0..<N div 4])"
    by (simp only: trace_loop_machine bytes_div_mod_N)
  from loop k tr show ?thesis by blast
qed

theorem main_loop_only_witness:
  "\<exists>s'. main_loop (8 * sizeof_float) 1 20 mm_setzero_ps (machine_of (image_at 1 mixed)) = (0, 1 + 8, 20 + 8, s') \<and>
     xnn_f32_relu_ukernel__sse_x4 (8 * sizeof_float) 1 20 0 (machine_of (image_at 1 mixed)) = Some s' \<and>
     trace s' = trace (machine_of (image_at 1 mixed))
        @ concat (map (\<lambda>k. [LoadU (1 + 4 * k), StoreU (20 + 4 * k)]) [0..<8 div 4])"
  by (rule main_loop_only) simp_all

section \<open>Termination and determinism\<close>

text \<open>
  C8, with the condition on the memory that the code needs. Let the arguments be valid
  (\<open>n\<close> not zero and a multiple of \<open>sizeof(float)\<close>, both pointers not null),
  let the input cells \<open>0, \<dots>, 4 * \<lceil>N / 4\<rceil> - 1\<close> be readable, that is the
  \<open>N = n / sizeof(float)\<close> floats of the buffer and, when \<open>N\<close> is not a multiple
  of 4, the \<open>4 - N mod 4\<close> floats behind it, and let the \<open>N\<close> output cells be
  writable. Then the call returns under memory protection, with the machine of the
  unprotected call, after at most \<open>2 * (n div 16) + 3\<close> memory accesses. The main
  loop ends without a fault and leaves \<open>n mod 16\<close>; each of its iterations
  continues with the byte count \<open>n - 4 * sizeof(float)\<close>, which is smaller. The
  resulting memory is determined by \<open>n\<close>, \<open>x\<close>, \<open>y\<close> and the initial
  memory alone: neither the parameter pointer nor the accesses made before the call
  change it.
\<close>

theorem kernel_completes:
  assumes "n \<noteq> 0" and "n mod sizeof_float = 0" and "x \<noteq> 0" and "y \<noteq> 0"
    and "{x..<x + 4 * ((n div sizeof_float + 3) div 4)} \<subseteq> readable pr"
    and "{y..<y + n div sizeof_float} \<subseteq> writable pr"
  shows "(\<exists>t. xnn_f32_relu_ukernel__sse_x4_prot pr n x y params s = Inr t \<and>
              xnn_f32_relu_ukernel__sse_x4 n x y params s = Some t \<and>
              length (trace t) \<le> length (trace s) + 2 * (n div 16) + 3) \<and>
         (\<exists>s'. main_loop_prot pr n x y mm_setzero_ps s
                 = Inr (n mod 16, x + 4 * (n div 16), y + 4 * (n div 16), s')) \<and>
         (16 \<le> n \<longrightarrow> n - 4 * sizeof_float < n \<and>
            main_loop_prot pr n x y mm_setzero_ps s
              = main_loop_prot pr (n - 4 * sizeof_float) (x + 4) (y + 4) mm_setzero_ps (chunk x y s)) \<and>
         (\<forall>s2 p2. mem s2 = mem s \<longrightarrow>
            map_sum id mem (xnn_f32_relu_ukernel__sse_x4_prot pr n x y p2 s2)
              = map_sum id mem (xnn_f32_relu_ukernel__sse_x4_prot pr n x y params s))"
proof -
  define N where "N = n div 4"
  have n: "n = N * 4" unfolding N_def using assms(2) by auto
  have N1: "1 \<le> N" using assms(1) n by arith
  have rd: "{x..<x + 4 * ((N + 3) div 4)} \<subseteq> readable pr"
    using assms(5) by (simp only: N_def)
  have wr: "{y..<y + N} \<subseteq> writable pr"
    using assms(6) by (simp only: N_def)
  have d16: "n div 16 = N div 4" unfolding n by (rule bytes_div_mod_N(1))
  have le1: "4 * (N div 4) \<le> 4 * ((N + 3) div 4)"
    by (simp add: div_le_mono)
  have le2: "4 * (N div 4) \<le> N" by simp
  have lrd: "{x..<x + 4 * (n div 16)} \<subseteq> readable pr"
    unfolding d16 by (rule cells_mono [OF le1 rd])
  have lwr: "{y..<y + 4 * (n div 16)} \<subseteq> writable pr"
    unfolding d16 by (rule cells_mono [OF le2 wr])
  have run: "xnn_f32_relu_ukernel__sse_x4_prot pr n x y p2 s2 = Inr t2"
    if "xnn_f32_relu_ukernel__sse_x4 n x y p2 s2 = Some t2" for p2 s2 t2
    using kernel_prot_N [OF N1 assms(3,4) that [unfolded n], of pr] rd wr
    unfolding n by simp
  from kernel_trace_bound [OF assms(1-4), of params s]
  obtain t where t: "xnn_f32_relu_ukernel__sse_x4 n x y params s = Some t"
    and len: "length (trace t) \<le> length (trace s) + 2 * (n div 16) + 3" by blast
  from t len run [OF t] have 1: "\<exists>t. xnn_f32_relu_ukernel__sse_x4_prot pr n x y params s = Inr t \<and>
              xnn_f32_relu_ukernel__sse_x4 n x y params s = Some t \<and>
              length (trace t) \<le> length (trace s) + 2 * (n div 16) + 3" by blast
  have 2: "\<exists>s'. main_loop_prot pr n x y mm_setzero_ps s
                 = Inr (n mod 16, x + 4 * (n div 16), y + 4 * (n div 16), s')"
    using lrd lwr by (simp add: main_loop_prot_eq main_loop_eq)
  have 3: "16 \<le> n \<longrightarrow> n - 4 * 4 < n \<and>
            main_loop_prot pr n x y mm_setzero_ps s
              = main_loop_prot pr (n - 4 * 4) (x + 4) (y + 4) mm_setzero_ps (chunk x y s)"
  proof
    assume ge: "16 \<le> n"
    then have "1 \<le> n div 16" by (simp add: div_greater_zero_iff Suc_le_eq)
    then have "4 \<le> 4 * (n div 16)" by simp
    then have "{x..<x + 4} \<subseteq> readable pr" and "{y..<y + 4} \<subseteq> writable pr"
      using lrd lwr by (auto intro: cells_mono)
    with ge show "n - 4 * 4 < n \<and>
            main_loop_prot pr n x y mm_setzero_ps s
              = main_loop_prot pr (n - 4 * 4) (x + 4) (y + 4) mm_setzero_ps (chunk x y s)"
      by (simp add: main_loop_prot_ge)
  qed
  have 4: "\<forall>s2 p2. mem s2 = mem s \<longrightarrow>
            map_sum id mem (xnn_f32_relu_ukernel__sse_x4_prot pr n x y p2 s2)
              = map_sum id mem (xnn_f32_relu_ukernel__sse_x4_prot pr n x y params s)"
  proof (intro allI impI)
    fix s2 :: machine and p2 :: addr
    assume m: "mem s2 = mem s"
    from kernel_trace_bound [OF assms(1-4), of p2 s2]
    obtain t2 where t2: "xnn_f32_relu_ukernel__sse_x4 n x y p2 s2 = Some t2" by blast
    from kernel_mem_cong [OF m, of n x y p2 params] t t2 have "mem t2 = mem t" by simp
    then show "map_sum id mem (xnn_f32_relu_ukernel__sse_x4_prot pr n x y p2 s2)
              = map_sum id mem (xnn_f32_relu_ukernel__sse_x4_prot pr n x y params s)"
      by (simp add: run [OF t] run [OF t2])
  qed
  from 1 2 3 4 show ?thesis by blast
qed

theorem kernel_completes_witness:
  "(\<exists>t. xnn_f32_relu_ukernel__sse_x4_prot \<lparr>readable = {1..<9}, writable = {20..<25}\<rparr> 20 1 20 0
          (machine_of (image_at 1 mixed)) = Inr t \<and>
        xnn_f32_relu_ukernel__sse_x4 20 1 20 0 (machine_of (image_at 1 mixed)) = Some t \<and>
        length (trace t) \<le> length (trace (machine_of (image_at 1 mixed))) + 2 * (20 div 16) + 3) \<and>
   (\<exists>s'. main_loop_prot \<lparr>readable = {1..<9}, writable = {20..<25}\<rparr> 20 1 20 mm_setzero_ps
            (machine_of (image_at 1 mixed))
          = Inr (20 mod 16, 1 + 4 * (20 div 16), 20 + 4 * (20 div 16), s')) \<and>
   20 - 4 * sizeof_float < (20::nat) \<and>
   main_loop_prot \<lparr>readable = {1..<9}, writable = {20..<25}\<rparr> 20 1 20 mm_setzero_ps
       (machine_of (image_at 1 mixed))
     = main_loop_prot \<lparr>readable = {1..<9}, writable = {20..<25}\<rparr> (20 - 4 * sizeof_float)
         (1 + 4) (20 + 4) mm_setzero_ps (chunk 1 20 (machine_of (image_at 1 mixed))) \<and>
   map_sum id mem (xnn_f32_relu_ukernel__sse_x4_prot \<lparr>readable = {1..<9}, writable = {20..<25}\<rparr>
                     20 1 20 7 ((machine_of (image_at 1 mixed))\<lparr>trace := [LoadU 3]\<rparr>))
     = map_sum id mem (xnn_f32_relu_ukernel__sse_x4_prot \<lparr>readable = {1..<9}, writable = {20..<25}\<rparr>
                         20 1 20 0 (machine_of (image_at 1 mixed)))"
proof -
  let ?s = "machine_of (image_at 1 mixed)"
  let ?pr = "\<lparr>readable = {1..<9}, writable = {20..<25::nat}\<rparr>"
  have v: "(20::nat) \<noteq> 0" "(20::nat) mod sizeof_float = 0" "(1::nat) \<noteq> 0" by simp_all
  have rd: "{1..<1 + 4 * ((20 div sizeof_float + 3) div 4)} \<subseteq> readable ?pr" by simp
  have wr: "{20..<20 + 20 div sizeof_float} \<subseteq> writable ?pr" by simp
  note k = kernel_completes [OF v(1,2,3,1) rd wr, of 0 ?s]
  note k2 = k [THEN conjunct2]
  note k3 = k2 [THEN conjunct2]
  have le: "16 \<le> (20::nat)" by simp
  have m: "mem (?s\<lparr>trace := [LoadU 3]\<rparr>) = mem ?s" by simp
  note c1 = k [THEN conjunct1]
  note c2 = k2 [THEN conjunct1]
  note c3 = k3 [THEN conjunct1, rule_format, OF le]
  note c4 = k3 [THEN conjunct2, rule_format, OF m, of 7]
  from c1 c2 c3 c4 show ?thesis by (intro conjI) (erule conjunct1 conjunct2 | assumption)+
qed

text \<open>
  C8 as first stated, for every valid input without a condition on the cells behind the
  input buffer, fails: with one readable float at cell 1, one writable float at cell 20
  and \<open>n = sizeof(float)\<close> the arguments are valid, but the tail load reads cells 1
  to 4 and the call ends with a memory fault.
\<close>

theorem kernel_faults_counterexample:
  "{1..<1 + (1::nat)} \<subseteq> readable \<lparr>readable = {1}, writable = {20}\<rparr> \<and>
   {20..<20 + (1::nat)} \<subseteq> writable \<lparr>readable = {1}, writable = {20}\<rparr> \<and>
   xnn_f32_relu_ukernel__sse_x4_prot \<lparr>readable = {1}, writable = {20}\<rparr> (1 * sizeof_float) 1 20 0
     (machine_of (image_at 1 [0x3F800000])) = Inl SegFault"
proof (intro conjI)
  show "{1..<1 + (1::nat)} \<subseteq> readable \<lparr>readable = {1}, writable = {20}\<rparr>"
    by auto
  show "{20..<20 + (1::nat)} \<subseteq> writable \<lparr>readable = {1}, writable = {20}\<rparr>"
    by auto
  show "xnn_f32_relu_ukernel__sse_x4_prot \<lparr>readable = {1}, writable = {20}\<rparr> (1 * sizeof_float) 1 20 0
     (machine_of (image_at 1 [0x3F800000])) = Inl SegFault"
    by (simp add: xnn_f32_relu_ukernel__sse_x4_prot_def main_loop_prot_lt tail_prot_def
          mm_loadu_ps_prot_def permitted_def)
qed

section \<open>Signed zero and NaN\<close>

text \<open>
  C9. For the input \<open>[-3.5, 0.0, 2.25, -0.0, 7.0]\<close> of length 5 the output is
  \<open>[0.0, 0.0, 2.25, 0.0, 7.0]\<close>. The statement is about bit patterns, so it also says
  that the negative zero of the input (sign bit set) becomes positive zero (sign bit
  clear); the two value lists tie the patterns to the numbers.
\<close>

theorem mixed_example:
  assumes "x \<noteq> 0" and "y \<noteq> 0" and "y \<le> x \<or> x + 5 \<le> y"
    and "buffer s x 5 = mixed"
  shows "\<exists>t. xnn_f32_relu_ukernel__sse_x4 (5 * sizeof_float) x y params s = Some t \<and>
           buffer t y 5 = [0, 0, 0x40100000, 0, 0x40E00000] \<and>
           map f32_valof mixed = [-3.5, 0, 2.25, 0, 7] \<and>
           map f32_valof (buffer t y 5) = [0, 0, 2.25, 0, 7] \<and>
           f32_sign (mixed ! 3) \<and> \<not> f32_sign (buffer t y 5 ! 3)"
proof -
  have N: "1 \<le> (5::nat)" by simp
  from kernel_Some [OF N assms(1,2)]
  obtain t where t: "xnn_f32_relu_ukernel__sse_x4 (5 * 4) x y params s = Some t" by blast
  note v = kernel_values [OF N assms(1,2) t assms(3)]
  from assms(4) have s: "mem s x = 0xC0600000" "mem s (x + 1) = 0" "mem s (x + 2) = 0x40100000"
    "mem s (x + 3) = 0x80000000" "mem s (x + 4) = 0x40E00000"
    by (simp_all add: buffer_5 mixed_def)
  have o: "mem t y = 0" "mem t (y + 1) = 0" "mem t (y + 2) = 0x40100000"
    "mem t (y + 3) = 0" "mem t (y + 4) = 0x40E00000"
    using v [of 0] v [of 1] v [of 2] v [of 3] v [of 4] s
    by (simp_all add: max_lane_mixed)
  have b: "buffer t y 5 = [0, 0, 0x40100000, 0, 0x40E00000]"
    unfolding buffer_5 by (simp only: o)
  have vo: "map f32_valof [0, 0, 0x40100000, 0, 0x40E00000] = [0, 0, 2.25, 0, 7]"
    by (simp add: f32_valof_def f32_scaled_def f32_magnitude_def f32_exponent_def
          f32_fraction_def f32_sign_def)
  have so: "\<not> f32_sign ([0, 0, 0x40100000, 0, 0x40E00000] ! 3)"
    by (simp add: f32_sign_def)
  from t b vo so valof_mixed sign_mixed(1) show ?thesis by simp
qed

theorem mixed_example_witness:
  "buffer (machine_of (image_at 1 mixed)) 1 5 = mixed \<and>
   (\<exists>t. xnn_f32_relu_ukernel__sse_x4 (5 * sizeof_float) 1 1 0 (machine_of (image_at 1 mixed)) = Some t \<and>
        buffer t 1 5 = [0, 0, 0x40100000, 0, 0x40E00000])"
proof -
  have b: "buffer (machine_of (image_at 1 mixed)) 1 5 = mixed" by code_simp
  from mixed_example [OF _ _ _ b, of 1 0] have
    "\<exists>t. xnn_f32_relu_ukernel__sse_x4 (5 * sizeof_float) 1 1 0 (machine_of (image_at 1 mixed)) = Some t \<and>
           buffer t 1 5 = [0, 0, 0x40100000, 0, 0x40E00000]"
    by auto
  with b show ?thesis by simp
qed

text \<open>
  C10. An input element that is a NaN, and likewise one that is negative zero, gives the
  output element positive zero, bit pattern 0: in both cases the comparison of MAXPS is
  false and the second operand, the zero vector, is returned.
\<close>

theorem nan_becomes_zero:
  assumes "1 \<le> N" and "x \<noteq> 0" and "y \<noteq> 0" and "y \<le> x \<or> x + N \<le> y"
    and "i < N"
    and "f32_is_nan (mem s (x + i)) \<or> mem s (x + i) = 0x80000000"
  shows "\<exists>t. xnn_f32_relu_ukernel__sse_x4 (N * sizeof_float) x y params s = Some t \<and>
           mem t (y + i) = 0"
proof -
  from kernel_Some [OF assms(1-3)]
  obtain t where t: "xnn_f32_relu_ukernel__sse_x4 (N * 4) x y params s = Some t" by blast
  from assms(6) have "max_lane (mem s (x + i)) 0 = 0"
  proof
    assume "f32_is_nan (mem s (x + i))"
    then show ?thesis by (simp add: max_lane_def f32_gt_def)
  next
    assume "mem s (x + i) = 0x80000000"
    then show ?thesis by (simp only: max_lane_mixed)
  qed
  with t show ?thesis
    by (simp add: kernel_values [OF assms(1-3) t assms(4,5)])
qed

theorem nan_becomes_zero_witness:
  "f32_is_nan (mem (machine_of (image_at 1 specials)) (1 + 0)) \<and>
   (\<exists>t. xnn_f32_relu_ukernel__sse_x4 (3 * sizeof_float) 1 1 0 (machine_of (image_at 1 specials)) = Some t \<and>
        mem t (1 + 0) = 0)"
proof -
  have n: "f32_is_nan (mem (machine_of (image_at 1 specials)) (1 + 0))"
    by (simp add: machine_of_def image_at_def specials_def f32_is_nan_def f32_exponent_def
          f32_fraction_def)
  then have "f32_is_nan (mem (machine_of (image_at 1 specials)) (1 + 0)) \<or>
     mem (machine_of (image_at 1 specials)) (1 + 0) = 0x80000000" by (rule disjI1)
  from nan_becomes_zero [OF _ _ _ _ _ this, of 3 1 0] n show ?thesis by simp
qed

end
